theory Spec2Isabelle
  imports Main "HOL-Library.Multiset" "HOL-Library.Sublist"
begin

section \<open>Sidebar data model\<close>

text \<open>
  The sidebar is an ordered sequence of \<open>TSidebarItem\<close>: a bare space id (a string) or
  a folder \<open>{ id, name?, content }\<close>. A draggable is a bare space id or a
  \<open>FolderDraggable\<close> \<open>{ folder, spaceId?, open? }\<close>. The field \<open>id\<close> is written
  \<open>id_folder\<close> and \<open>open\<close> is written \<open>open_folder\<close>, since both names are taken in HOL.
\<close>

record ISidebarFolder =
  id_folder :: string
  name :: "string option"
  content :: "string list"

datatype TSidebarItem = Space string | Folder ISidebarFolder

record FolderDraggable =
  folder :: ISidebarFolder
  spaceId :: "string option"
  open_folder :: "bool option"

datatype SidebarDraggable = DSpace string | DFolder FolderDraggable

text \<open>
  \<open>InstructionType\<close> is \<open>Instruction['type']\<close> of the tree-item hitbox of the drag and drop
  library: its five type tags.
\<close>

datatype InstructionType =
  ReorderAbove | ReorderBelow | MakeChild | Reparent | InstructionBlocked

text \<open>
  The action dispatched to the opened-folder atom by \<open>setOpenedFolder\<close>.
\<close>

datatype OpenedFolderAction = DELETE string | PUT string

section \<open>The reorder callback\<close>

text \<open>
  \<open>item.spaceId\<close> used as a condition: an optional string is truthy when it is present
  and not the empty string. The result is the space id when truthy.
\<close>

definition truthy :: "string option \<Rightarrow> string option" where
  "truthy s = (case s of None \<Rightarrow> None | Some x \<Rightarrow> if x = [] then None else Some x)"

fun matchDest :: "TSidebarItem \<Rightarrow> SidebarDraggable \<Rightarrow> bool" where
  "matchDest (Space sI) (DSpace dI) = (sI = dI)"
| "matchDest (Folder sI) (DFolder dI) = (id_folder sI = id_folder (folder dI))"
| "matchDest _ _ = False"

fun itemAsFolderContent :: "SidebarDraggable \<Rightarrow> string list" where
  "itemAsFolderContent (DSpace i) = [i]"
| "itemAsFolderContent (DFolder i) =
     (case truthy (spaceId i) of Some s \<Rightarrow> [s] | None \<Rightarrow> content (folder i))"

fun sameFolders :: "SidebarDraggable \<Rightarrow> SidebarDraggable \<Rightarrow> bool" where
  "sameFolders (DFolder item) (DFolder containerItem) =
     (id_folder (folder item) = id_folder (folder containerItem))"
| "sameFolders _ _ = False"

text \<open>
  The inner \<open>forEach\<close> of the drop inside an opened folder: the ids pushed to
  \<open>newContent\<close> for the (already filtered) folder content. At the container's space id the
  two tests on the instruction run one after the other and the id itself is pushed only by
  them.
\<close>

fun placeAround :: "InstructionType \<Rightarrow> string \<Rightarrow> string list \<Rightarrow> string list \<Rightarrow> string list" where
  "placeAround instructionType cs child [] = []"
| "placeAround instructionType cs child (sId # rest) =
     (if sId = cs
      then (if instructionType = ReorderBelow then sId # child else []) @
           (if instructionType = ReorderAbove then child @ [sId] else [])
      else [sId]) @ placeAround instructionType cs child rest"

text \<open>
  The state the loop body works on: the list \<open>newItems\<close> it pushes to, the actions it
  dispatches with \<open>setOpenedFolder\<close>, and the number of calls of \<open>randomStr\<close> made so far.
  \<open>randomStr\<close> is a parameter: its k-th call returns \<open>rnd k\<close>.
\<close>

record reorder_state =
  newItems :: "TSidebarItem list"
  dispatched :: "OpenedFolderAction list"
  randomCalls :: nat

definition push :: "TSidebarItem list \<Rightarrow> reorder_state \<Rightarrow> reorder_state" where
  "push xs st = st\<lparr>newItems := newItems st @ xs\<rparr>"

text \<open>The branch \<open>drop above or below space or closed/opened folder\<close>: the items pushed.\<close>

definition dropAround ::
  "SidebarDraggable \<Rightarrow> SidebarDraggable \<Rightarrow> InstructionType \<Rightarrow> TSidebarItem \<Rightarrow> TSidebarItem list" where
  "dropAround item containerItem instructionType i =
     (case item of
        DSpace a \<Rightarrow>
          (if instructionType = ReorderBelow then [i] else []) @ [Space a] @
          (if instructionType = ReorderAbove then [i] else [])
      | DFolder d \<Rightarrow>
          (case truthy (spaceId d) of
             Some s \<Rightarrow>
               (if instructionType = ReorderAbove then [Space s] else []) @
               (case i of
                  Folder fi \<Rightarrow>
                    (if sameFolders item containerItem
                     then (let newI = fi\<lparr>content := filter (\<lambda>sId. sId \<noteq> s) (content fi)\<rparr>
                           in if length (content newI) > 0 then [Folder newI] else [])
                     else [i])
                | Space _ \<Rightarrow> [i]) @
               (if instructionType = ReorderBelow then [Space s] else [])
           | None \<Rightarrow>
               (if instructionType = ReorderBelow then [i] else []) @ [Folder (folder d)] @
               (if instructionType = ReorderAbove then [i] else [])))"

text \<open>The body of \<open>sidebarItems.forEach\<close>, for one item \<open>i\<close>.\<close>

definition reorderStep ::
  "(nat \<Rightarrow> string) \<Rightarrow> SidebarDraggable \<Rightarrow> SidebarDraggable \<Rightarrow> InstructionType \<Rightarrow>
     TSidebarItem \<Rightarrow> reorder_state \<Rightarrow> reorder_state" where
  "reorderStep rnd item containerItem instructionType i st =
     (if \<not> sameFolders item containerItem \<and> matchDest i item then
        (case item of
           DSpace _ \<Rightarrow> st
         | DFolder d \<Rightarrow>
             (case truthy (spaceId d) of
                Some s \<Rightarrow>
                  (let folderContent = filter (\<lambda>x. x \<noteq> s) (content (folder d)) in
                   if length folderContent = 0
                   then st\<lparr>dispatched := dispatched st @ [DELETE (id_folder (folder d))]\<rparr>
                   else push [Folder ((folder d)\<lparr>content := folderContent\<rparr>)] st)
              | None \<Rightarrow> st))
      else if matchDest i containerItem then
        (if instructionType = MakeChild then
           (let child = itemAsFolderContent item in
            case containerItem of
              DSpace c \<Rightarrow>
                push [Folder \<lparr>id_folder = rnd (randomCalls st), name = None,
                              content = [c] @ child\<rparr>]
                  (st\<lparr>randomCalls := Suc (randomCalls st)\<rparr>)
            | DFolder cd \<Rightarrow>
                push [Folder ((folder cd)\<lparr>content := content (folder cd) @ child\<rparr>)] st)
         else
           (case (case containerItem of DSpace _ \<Rightarrow> None
                  | DFolder cd \<Rightarrow> map_option (Pair cd) (truthy (spaceId cd))) of
              Some (cd, cs) \<Rightarrow>
                (let child = itemAsFolderContent item;
                     newContent = placeAround instructionType cs child
                       (filter (\<lambda>sId. sId \<notin> set child) (content (folder cd)))
                 in push [Folder ((folder cd)\<lparr>content := newContent\<rparr>)] st)
            | None \<Rightarrow> push (dropAround item containerItem instructionType i) st))
      else push [i] st)"

definition reorderInit :: "nat \<Rightarrow> reorder_state" where
  "reorderInit n = \<lparr>newItems = [], dispatched = [], randomCalls = n\<rparr>"

text \<open>
  The loop of the callback over \<open>sidebarItems\<close>, started when \<open>randomStr\<close> has been called
  \<open>n\<close> times before.
\<close>

definition reorderLoop ::
  "(nat \<Rightarrow> string) \<Rightarrow> nat \<Rightarrow> TSidebarItem list \<Rightarrow> SidebarDraggable \<Rightarrow> SidebarDraggable \<Rightarrow>
     InstructionType \<Rightarrow> reorder_state" where
  "reorderLoop rnd n sidebarItems item containerItem instructionType =
     foldl (\<lambda>st i. reorderStep rnd item containerItem instructionType i st)
       (reorderInit n) sidebarItems"

definition reconcile ::
  "(nat \<Rightarrow> string) \<Rightarrow> nat \<Rightarrow> TSidebarItem list \<Rightarrow> SidebarDraggable \<Rightarrow> SidebarDraggable \<Rightarrow>
     InstructionType \<Rightarrow> TSidebarItem list" where
  "reconcile rnd n sidebarItems item containerItem instructionType =
     newItems (reorderLoop rnd n sidebarItems item containerItem instructionType)"

text \<open>
  The callback passed to \<open>useDnDMonitor\<close>. The client state it reads and writes: the
  sidebar items (replaced by \<open>localEchoSidebarItem\<close>), the account data event written by
  \<open>mx.setAccountData\<close>, the actions dispatched to the opened-folder atom, the item being
  dragged and the number of calls of \<open>randomStr\<close>. The helpers \<open>makeCinnySpacesContent\<close> and
  \<open>parseSidebar\<close> are imported from another module and are parameters here.
\<close>

record 'c client_state =
  sidebarItems :: "TSidebarItem list"
  accountData :: 'c
  openedFolderActions :: "OpenedFolderAction list"
  draggingItem :: "SidebarDraggable option"
  randomStrCalls :: nat

definition onReorder ::
  "(TSidebarItem list \<Rightarrow> 'c) \<Rightarrow> ('c \<Rightarrow> TSidebarItem list) \<Rightarrow> (nat \<Rightarrow> string) \<Rightarrow>
     SidebarDraggable \<Rightarrow> SidebarDraggable \<Rightarrow> InstructionType \<Rightarrow>
     'c client_state \<Rightarrow> 'c client_state" where
  "onReorder makeCinnySpacesContent parseSidebar rnd item containerItem instructionType st =
     (let r = reorderLoop rnd (randomStrCalls st) (sidebarItems st) item containerItem
                instructionType;
          newSpacesContent = makeCinnySpacesContent (newItems r)
      in st\<lparr>sidebarItems := parseSidebar newSpacesContent,
            accountData := newSpacesContent,
            openedFolderActions := openedFolderActions st @ dispatched r,
            randomStrCalls := randomCalls r\<rparr>)"

section \<open>Drop targets and the drop monitor\<close>

text \<open>
  The \<open>item\<close> a drag source or a drop target carries is a JavaScript value: a string, or
  a reference to a \<open>FolderDraggable\<close> object. \<open>!==\<close> compares strings by their characters
  and objects by their reference.
\<close>

datatype DraggableRef = RString string | RObject nat

definition strictNotEqual :: "DraggableRef \<Rightarrow> DraggableRef \<Rightarrow> bool" where
  "strictNotEqual a b = (case (a, b) of
      (RString x, RString y) \<Rightarrow> x \<noteq> y
    | (RObject p, RObject q) \<Rightarrow> p \<noteq> q
    | _ \<Rightarrow> True)"

text \<open>\<open>canDrop\<close> of \<open>useDropTarget\<close>, for the target's \<open>item\<close> and the source's item.\<close>

definition useDropTarget_canDrop :: "DraggableRef \<Rightarrow> DraggableRef \<Rightarrow> bool" where
  "useDropTarget_canDrop item dragItem = strictNotEqual dragItem item"

text \<open>\<open>canDrop\<close> of \<open>useDropTargetInstruction\<close>.\<close>

definition useDropTargetInstruction_canDrop :: "DraggableRef \<Rightarrow> DraggableRef \<Rightarrow> bool" where
  "useDropTargetInstruction_canDrop item dragItem = strictNotEqual dragItem item"

text \<open>
  The data of a drop target, as \<open>getData\<close> returns it: the target's item and the
  instruction type, which is undefined when no instruction was extracted.
\<close>

record drop_target_data =
  target_item :: SidebarDraggable
  target_instructionType :: "InstructionType option"

text \<open>
  \<open>onDrop\<close> of the monitor in \<open>useDnDMonitor\<close>: \<open>onDragging\<close> is \<open>setDraggingItem\<close> and
  \<open>onReorder\<close> is the callback above. Every instruction type is a non-empty string, so
  \<open>!instructionType\<close> holds exactly for undefined.
\<close>

definition onDrop ::
  "(TSidebarItem list \<Rightarrow> 'c) \<Rightarrow> ('c \<Rightarrow> TSidebarItem list) \<Rightarrow> (nat \<Rightarrow> string) \<Rightarrow>
     SidebarDraggable \<Rightarrow> drop_target_data list \<Rightarrow> 'c client_state \<Rightarrow> 'c client_state" where
  "onDrop makeCinnySpacesContent parseSidebar rnd source_item dropTargets st =
     (let st1 = st\<lparr>draggingItem := None\<rparr> in
      case dropTargets of
        [] \<Rightarrow> st1
      | t # _ \<Rightarrow>
          (case target_instructionType t of
             None \<Rightarrow> st1
           | Some instructionType \<Rightarrow>
               onReorder makeCinnySpacesContent parseSidebar rnd source_item (target_item t)
                 instructionType st1))"

section \<open>The tabs the sidebar renders\<close>

text \<open>
  \<open>SpaceTab\<close> builds its draggable with \<open>useMemo\<close>: \<open>{ folder, spaceId: space.roomId }\<close> for
  a space shown inside a folder, the room id for a bare space. The same value is the tab's
  drag item (\<open>useDraggableItem\<close>) and its drop item (\<open>useDropTarget\<close>).
\<close>

definition spaceDraggable :: "ISidebarFolder option \<Rightarrow> string \<Rightarrow> SidebarDraggable" where
  "spaceDraggable fld roomId =
     (case fld of
        Some f \<Rightarrow> DFolder \<lparr>folder = f, spaceId = Some roomId, open_folder = None\<rparr>
      | None \<Rightarrow> DSpace roomId)"

text \<open>
  The draggables of the tabs \<open>SpaceTabs\<close> renders, in order: one tab per space of a folder's
  content, one tab per bare space; a space for which \<open>mx.getRoom\<close> finds no room is skipped
  (\<open>getRoom\<close> tells whether it finds one). No other component registers a draggable or a
  drop target on an element: \<open>ClosedSpaceFolder\<close> is never rendered, and the refs that
  \<open>SpaceFolder\<close> passes to \<open>useDropTargetInstruction\<close> are attached to no element.
\<close>

definition tabDraggables :: "(string \<Rightarrow> bool) \<Rightarrow> TSidebarItem list \<Rightarrow> SidebarDraggable list" where
  "tabDraggables getRoom items =
     concat (map (\<lambda>item. case item of
                     Folder f \<Rightarrow> map (spaceDraggable (Some f)) (filter getRoom (content f))
                   | Space s \<Rightarrow> if getRoom s then [spaceDraggable None s] else [])
               items)"

text \<open>
  The JavaScript value that is the item of tab \<open>k\<close>: the string itself for a bare space,
  the object the tab created for a space inside a folder. An object is identified by the
  tab that created it.
\<close>

definition tabRef :: "SidebarDraggable list \<Rightarrow> nat \<Rightarrow> DraggableRef" where
  "tabRef tabs k =
     (if k < length tabs
      then (case tabs ! k of DSpace s \<Rightarrow> RString s | DFolder _ \<Rightarrow> RObject k)
      else RObject k)"

text \<open>
  The instruction types a drop target blocks (\<open>getData\<close> of \<open>useDropTarget\<close>): reparent
  always, make-child when the target is a space inside a folder. The hitbox hands a blocked
  instruction over with the type \<open>instruction-blocked\<close>.
\<close>

definition blockList :: "SidebarDraggable \<Rightarrow> InstructionType list" where
  "blockList item =
     Reparent # (case item of
                   DSpace _ \<Rightarrow> []
                 | DFolder d \<Rightarrow> (case truthy (spaceId d) of Some _ \<Rightarrow> [MakeChild] | None \<Rightarrow> []))"

text \<open>
  A registered drop target under the pointer when the drop completes: the tab it belongs
  to and the type of the instruction the hitbox extracted for it (none when it extracted
  no instruction).
\<close>

record hit_target =
  hit_tab :: nat
  hit_instruction :: "InstructionType option"

text \<open>What \<open>getData\<close> returns for such a target: the tab's item and the instruction type.\<close>

definition getData :: "SidebarDraggable list \<Rightarrow> hit_target \<Rightarrow> drop_target_data" where
  "getData tabs h = \<lparr>target_item = tabs ! hit_tab h, target_instructionType = hit_instruction h\<rparr>"

text \<open>
  \<open>location.current.dropTargets\<close>: the drag and drop library asks \<open>canDrop\<close> of every
  registered target under the pointer and lists the data of those that returned true,
  innermost first.
\<close>

definition monitorDropTargets ::
  "SidebarDraggable list \<Rightarrow> nat \<Rightarrow> hit_target list \<Rightarrow> drop_target_data list" where
  "monitorDropTargets tabs source hits =
     map (getData tabs)
       (filter (\<lambda>h. useDropTarget_canDrop (tabRef tabs (hit_tab h)) (tabRef tabs source)) hits)"

text \<open>A completed drag of the tab \<open>source\<close> over the targets \<open>hits\<close>, as the monitor sees it.\<close>

definition tabDrop ::
  "(TSidebarItem list \<Rightarrow> 'c) \<Rightarrow> ('c \<Rightarrow> TSidebarItem list) \<Rightarrow> (nat \<Rightarrow> string) \<Rightarrow>
     SidebarDraggable list \<Rightarrow> nat \<Rightarrow> hit_target list \<Rightarrow> 'c client_state \<Rightarrow> 'c client_state" where
  "tabDrop makeCinnySpacesContent parseSidebar rnd tabs source hits st =
     onDrop makeCinnySpacesContent parseSidebar rnd (tabs ! source)
       (monitorDropTargets tabs source hits) st"

section \<open>Well-formed inputs\<close>

text \<open>
  The space ids of the whole structure, in display order: a bare space counts once, a
  folder contributes its content.
\<close>

fun spacesOf :: "TSidebarItem \<Rightarrow> string list" where
  "spacesOf (Space s) = [s]"
| "spacesOf (Folder f) = content f"

definition allSpaces :: "TSidebarItem list \<Rightarrow> string list" where
  "allSpaces xs = concat (map spacesOf xs)"

fun foldersOf :: "TSidebarItem list \<Rightarrow> ISidebarFolder list" where
  "foldersOf [] = []"
| "foldersOf (Space s # xs) = foldersOf xs"
| "foldersOf (Folder f # xs) = f # foldersOf xs"

definition folderIds :: "TSidebarItem list \<Rightarrow> string list" where
  "folderIds xs = map id_folder (foldersOf xs)"

text \<open>
  The invariants of the data model: a space id occurs once in the whole structure, folder
  ids are unique, no folder is empty.
\<close>

definition sidebarInvariant :: "TSidebarItem list \<Rightarrow> bool" where
  "sidebarInvariant xs =
     (distinct (allSpaces xs) \<and> distinct (folderIds xs) \<and> [] \<notin> set (map content (foldersOf xs)))"

text \<open>
  A draggable is present: the bare space is a top-level item; the folder it names is an
  item of the sidebar and the space dragged out of it (or dropped on) is in its content.
\<close>

fun present :: "TSidebarItem list \<Rightarrow> SidebarDraggable \<Rightarrow> bool" where
  "present xs (DSpace a) = (Space a \<in> set xs)"
| "present xs (DFolder d) =
     (Folder (folder d) \<in> set xs \<and>
      (case truthy (spaceId d) of Some s \<Rightarrow> s \<in> set (content (folder d)) | None \<Rightarrow> True))"

definition threeKinds :: "InstructionType \<Rightarrow> bool" where
  "threeKinds t = (t = ReorderAbove \<or> t = ReorderBelow \<or> t = MakeChild)"

definition wellFormed ::
  "TSidebarItem list \<Rightarrow> SidebarDraggable \<Rightarrow> SidebarDraggable \<Rightarrow> InstructionType \<Rightarrow> bool" where
  "wellFormed xs item containerItem t =
     (sidebarInvariant xs \<and> present xs item \<and> present xs containerItem \<and>
      item \<noteq> containerItem \<and> threeKinds t)"

text \<open>
  What the drop targets advertise for a drag inside one folder: when the drag item and the
  container name the same folder, the drag item is one space of that folder, the
  instruction is a reorder, and the container is another space of the folder or the
  folder as a whole.
\<close>

fun sameFolderMove :: "SidebarDraggable \<Rightarrow> SidebarDraggable \<Rightarrow> InstructionType \<Rightarrow> bool" where
  "sameFolderMove (DFolder d) (DFolder cd) t =
     (if id_folder (folder d) = id_folder (folder cd)
      then (case truthy (spaceId d) of
              Some s \<Rightarrow> t \<noteq> MakeChild \<and> truthy (spaceId cd) \<noteq> Some s
            | None \<Rightarrow> False)
      else True)"
| "sameFolderMove _ _ t = True"

text \<open>
  The part of it that concerns a drop on a space inside a folder: when the container is a
  space of the folder the drag item names, the drag item is another single space of that
  folder.
\<close>

fun ownFolderSpace :: "SidebarDraggable \<Rightarrow> SidebarDraggable \<Rightarrow> bool" where
  "ownFolderSpace (DFolder d) (DFolder cd) =
     (if id_folder (folder d) = id_folder (folder cd)
      then (case truthy (spaceId cd) of
              Some cs \<Rightarrow> (case truthy (spaceId d) of Some s \<Rightarrow> s \<noteq> cs | None \<Rightarrow> False)
            | None \<Rightarrow> True)
      else True)"
| "ownFolderSpace _ _ = True"

text \<open>The items the loop body pushes for one item.\<close>

definition emitted ::
  "(nat \<Rightarrow> string) \<Rightarrow> nat \<Rightarrow> SidebarDraggable \<Rightarrow> SidebarDraggable \<Rightarrow> InstructionType \<Rightarrow>
     TSidebarItem \<Rightarrow> TSidebarItem list" where
  "emitted rnd n item containerItem t i =
     newItems (reorderStep rnd item containerItem t i (reorderInit n))"

definition originItem :: "SidebarDraggable \<Rightarrow> TSidebarItem" where
  "originItem d = (case d of DSpace a \<Rightarrow> Space a | DFolder fd \<Rightarrow> Folder (folder fd))"

text \<open>\<open>typeof containerItem === 'string'\<close>.\<close>

fun isBareSpace :: "SidebarDraggable \<Rightarrow> bool" where
  "isBareSpace (DSpace _) = True"
| "isBareSpace (DFolder _) = False"

text \<open>
  The loop body reaches \<open>randomStr\<close> for the item \<open>i\<close>: the removal branch is not taken,
  the item matches the container, the instruction is make-child and the container is a
  bare space.
\<close>

definition mintsFolder ::
  "SidebarDraggable \<Rightarrow> SidebarDraggable \<Rightarrow> InstructionType \<Rightarrow> TSidebarItem \<Rightarrow> bool" where
  "mintsFolder item containerItem t i =
     (t = MakeChild \<and> isBareSpace containerItem \<and> matchDest i containerItem \<and>
      \<not> matchDest i item)"

text \<open>An item of the sidebar that matches neither the drag item nor the container.\<close>

definition unmatched :: "SidebarDraggable \<Rightarrow> SidebarDraggable \<Rightarrow> TSidebarItem \<Rightarrow> bool" where
  "unmatched item containerItem i = (\<not> matchDest i item \<and> \<not> matchDest i containerItem)"

section \<open>Example sidebars\<close>

text \<open>
  The sidebar of the scenarios: the bare spaces A and B and the folder F1 with content
  C, D. A second sidebar holds a folder with a single space.
\<close>

definition exF1 :: ISidebarFolder where
  "exF1 = \<lparr>id_folder = ''F1'', name = None, content = [''C'', ''D'']\<rparr>"

definition exItems :: "TSidebarItem list" where
  "exItems = [Space ''A'', Space ''B'', Folder exF1]"

definition exF2 :: ISidebarFolder where
  "exF2 = \<lparr>id_folder = ''F2'', name = None, content = [''E'']\<rparr>"

definition exItems2 :: "TSidebarItem list" where
  "exItems2 = [Space ''A'', Folder exF2]"

text \<open>The space C inside F1 and the space D inside F1, as their tabs build them.\<close>

definition dragC :: SidebarDraggable where
  "dragC = DFolder \<lparr>folder = exF1, spaceId = Some ''C'', open_folder = None\<rparr>"

definition dragD :: SidebarDraggable where
  "dragD = DFolder \<lparr>folder = exF1, spaceId = Some ''D'', open_folder = None\<rparr>"

text \<open>The space E inside F2.\<close>

definition dragE :: SidebarDraggable where
  "dragE = DFolder \<lparr>folder = exF2, spaceId = Some ''E'', open_folder = None\<rparr>"

text \<open>
  A client that has a room for every id but the empty one, and a client state around
  \<open>exItems\<close> while C is dragged.
\<close>

definition hasRoom :: "string \<Rightarrow> bool" where
  "hasRoom roomId = (roomId \<noteq> [])"

definition exClient :: "TSidebarItem list client_state" where
  "exClient = \<lparr>sidebarItems = exItems, accountData = exItems, openedFolderActions = [],
       draggingItem = Some dragC, randomStrCalls = 0\<rparr>"

text \<open>Two outcomes of \<open>randomStr\<close>.\<close>

definition rndNew :: "nat \<Rightarrow> string" where
  "rndNew k = ''new''"

definition rndOther :: "nat \<Rightarrow> string" where
  "rndOther k = ''other''"

section \<open>The loop as a concatenation of what each item emits\<close>

lemma step_newItems:
  "newItems (reorderStep rnd item c t i st) = newItems st @ emitted rnd (randomCalls st) item c t i"
  by (simp add: emitted_def reorderStep_def push_def reorderInit_def Let_def
      split: SidebarDraggable.splits option.splits prod.splits)

lemma emitted_spaces_indep:
  "allSpaces (emitted rnd n item c t i) = allSpaces (emitted rnd' n' item c t i)"
  by (simp add: emitted_def reorderStep_def push_def reorderInit_def Let_def allSpaces_def
      split: SidebarDraggable.splits option.splits prod.splits)

lemma emitted_unmatched:
  "\<not> matchDest i item \<Longrightarrow> \<not> matchDest i c \<Longrightarrow> emitted rnd n item c t i = [i]"
  by (simp add: emitted_def reorderStep_def push_def reorderInit_def)

lemma allSpaces_append [simp]: "allSpaces (xs @ ys) = allSpaces xs @ allSpaces ys"
  by (simp add: allSpaces_def)

lemma loop_spaces_gen:
  "allSpaces (newItems (foldl (\<lambda>st i. reorderStep rnd item c t i st) st xs)) =
   allSpaces (newItems st) @ concat (map (\<lambda>i. allSpaces (emitted rnd 0 item c t i)) xs)"
proof (induction xs arbitrary: st)
  case Nil
  then show ?case by simp
next
  case (Cons x xs)
  have "allSpaces (emitted rnd (randomCalls st) item c t x) = allSpaces (emitted rnd 0 item c t x)"
    by (rule emitted_spaces_indep)
  then show ?case
    by (simp add: Cons.IH step_newItems)
qed

lemma reconcile_spaces:
  "allSpaces (reconcile rnd n xs item c t) =
   concat (map (\<lambda>i. allSpaces (emitted rnd 0 item c t i)) xs)"
  using loop_spaces_gen [of rnd item c t "reorderInit n" xs]
  by (simp add: reconcile_def reorderLoop_def reorderInit_def allSpaces_def [of "[]"])

lemma sum_two_changed:
  fixes f g :: "'a \<Rightarrow> 'b multiset"
  assumes "distinct xs" "a \<in> set xs" "b \<in> set xs" "a \<noteq> b"
    and rest: "\<And>x. x \<in> set xs \<Longrightarrow> x \<noteq> a \<Longrightarrow> x \<noteq> b \<Longrightarrow> f x = g x"
    and ab: "f a + f b = g a + g b"
  shows "sum_list (map f xs) = sum_list (map g xs)"
proof -
  have fin: "finite (set xs)" by simp
  have b': "b \<in> set xs - {a}" using assms by simp
  have "sum f (set xs) = f a + (f b + sum f (set xs - {a} - {b}))"
    using assms(2) b' by (simp add: sum.remove)
  moreover have "sum g (set xs) = g a + (g b + sum g (set xs - {a} - {b}))"
    using assms(2) b' by (simp add: sum.remove)
  moreover have "sum f (set xs - {a} - {b}) = sum g (set xs - {a} - {b})"
    by (rule sum.cong) (auto intro: rest)
  ultimately have "sum f (set xs) = sum g (set xs)"
    using ab by (simp add: add.assoc [symmetric])
  then show ?thesis
    using assms(1) by (simp add: sum_list_distinct_conv_sum_set)
qed

lemma placeAround_absent: "cs \<notin> set xs \<Longrightarrow> placeAround t cs child xs = xs"
  by (induction xs) auto

lemma placeAround_mset:
  "cs \<in> set xs \<Longrightarrow> distinct xs \<Longrightarrow> t = ReorderAbove \<or> t = ReorderBelow \<Longrightarrow>
   mset (placeAround t cs child xs) = mset xs + mset child"
  by (induction xs) (auto simp: placeAround_absent)

lemma foldersOf_mem: "f \<in> set (foldersOf xs) \<longleftrightarrow> Folder f \<in> set xs"
  by (induction xs rule: foldersOf.induct) auto

lemma same_id_same_folder:
  assumes "distinct (folderIds xs)" "Folder f \<in> set xs" "Folder g \<in> set xs" "id_folder f = id_folder g"
  shows "f = g"
proof -
  have "inj_on id_folder (set (foldersOf xs))"
    using assms(1) by (simp add: folderIds_def distinct_map)
  then show ?thesis
    using assms by (auto simp: foldersOf_mem dest: inj_onD)
qed

lemma match_origin:
  assumes "sidebarInvariant xs" "present xs d" "i \<in> set xs"
  shows "matchDest i d \<longleftrightarrow> i = originItem d"
proof (cases d)
  case (DSpace a)
  then show ?thesis by (cases i) (auto simp: originItem_def)
next
  case (DFolder fd)
  show ?thesis
  proof (cases i)
    case (Space s)
    then show ?thesis using DFolder by (simp add: originItem_def)
  next
    case (Folder f)
    then show ?thesis
      using DFolder assms same_id_same_folder [of xs f "folder fd"]
      by (auto simp: originItem_def sidebarInvariant_def)
  qed
qed

lemma origin_present: "present xs d \<Longrightarrow> originItem d \<in> set xs"
  by (cases d) (auto simp: originItem_def)

lemma spacesOf_nonempty:
  "sidebarInvariant xs \<Longrightarrow> i \<in> set xs \<Longrightarrow> spacesOf i \<noteq> []"
proof (cases i)
  case (Space s)
  then show ?thesis by simp
next
  case (Folder f)
  assume inv: "sidebarInvariant xs" and mem: "i \<in> set xs"
  then have "f \<in> set (foldersOf xs)"
    using Folder by (simp add: foldersOf_mem)
  then have "content f \<in> set (map content (foldersOf xs))"
    by simp
  then show ?thesis
    using inv Folder by (auto simp: sidebarInvariant_def)
qed

lemma invariant_distinct_items:
  assumes "sidebarInvariant xs"
  shows "distinct (map spacesOf xs)"
proof -
  have "distinct (removeAll [] (map spacesOf xs))"
    using assms by (simp add: sidebarInvariant_def allSpaces_def distinct_concat_iff)
  moreover have "[] \<notin> set (map spacesOf xs)"
    using spacesOf_nonempty [OF assms] by (metis (no_types) image_iff list.set_map)
  ultimately show ?thesis by simp
qed

lemma invariant_distinct: "sidebarInvariant xs \<Longrightarrow> distinct xs"
  using invariant_distinct_items distinct_map by blast

lemma invariant_disjoint:
  assumes "sidebarInvariant xs" "i \<in> set xs" "j \<in> set xs" "i \<noteq> j"
  shows "set (spacesOf i) \<inter> set (spacesOf j) = {}"
proof -
  have "inj_on spacesOf (set xs)"
    using invariant_distinct_items [OF assms(1)] by (simp add: distinct_map)
  then have "spacesOf i \<noteq> spacesOf j"
    using assms by (auto dest: inj_onD)
  then show ?thesis
    using assms by (simp add: sidebarInvariant_def allSpaces_def distinct_concat_iff)
qed

lemma invariant_distinct_spaces:
  "sidebarInvariant xs \<Longrightarrow> i \<in> set xs \<Longrightarrow> distinct (spacesOf i)"
  by (simp add: sidebarInvariant_def allSpaces_def distinct_concat_iff)

lemma filter_neq_absent: "s \<notin> set xs \<Longrightarrow> filter (\<lambda>x. x \<noteq> s) xs = xs"
  by (induction xs) auto

lemma filter_out_mset:
  "distinct xs \<Longrightarrow> s \<in> set xs \<Longrightarrow> mset (filter (\<lambda>x. x \<noteq> s) xs) + {#s#} = mset xs"
  by (induction xs) (auto simp del: mset_filter simp: filter_neq_absent)

lemma filter_disjoint: "set child \<inter> set xs = {} \<Longrightarrow> filter (\<lambda>x. x \<notin> set child) xs = xs"
  by (induction xs) auto

lemma child_subset:
  "present xs item \<Longrightarrow> set (itemAsFolderContent item) \<subseteq> set (spacesOf (originItem item))"
  by (cases item) (auto simp: originItem_def split: option.splits)

lemma emitted_origin:
  assumes "\<not> sameFolders item c" "sidebarInvariant xs" "present xs item"
  shows "mset (allSpaces (emitted rnd n item c t (originItem item))) + mset (itemAsFolderContent item)
         = mset (spacesOf (originItem item))"
proof (cases item)
  case (DSpace a)
  then show ?thesis
    using assms(1)
    by (simp add: emitted_def reorderStep_def originItem_def reorderInit_def allSpaces_def)
next
  case (DFolder d)
  have dist: "distinct (content (folder d))"
    using invariant_distinct_spaces [OF assms(2), of "Folder (folder d)"] assms(3) DFolder by simp
  show ?thesis
  proof (cases "truthy (spaceId d)")
    case None
    then show ?thesis
      using assms(1) DFolder
      by (simp add: emitted_def reorderStep_def originItem_def reorderInit_def allSpaces_def)
  next
    case (Some s)
    then have "s \<in> set (content (folder d))"
      using assms(3) DFolder by simp
    then have "mset (filter (\<lambda>x. x \<noteq> s) (content (folder d))) + {#s#} = mset (content (folder d))"
      using dist by (rule filter_out_mset [rotated])
    moreover have "allSpaces (emitted rnd n item c t (originItem item))
        = filter (\<lambda>x. x \<noteq> s) (content (folder d))"
      using assms(1) DFolder Some
      by (simp add: emitted_def reorderStep_def originItem_def reorderInit_def allSpaces_def
          push_def Let_def)
    moreover have "itemAsFolderContent item = [s]"
      using DFolder Some by simp
    moreover have "spacesOf (originItem item) = content (folder d)"
      using DFolder by (simp add: originItem_def)
    ultimately show ?thesis
      by (simp del: mset_filter)
  qed
qed

lemma emitted_container:
  assumes "\<not> matchDest (originItem c) item" "threeKinds t"
    and "present xs c" "distinct (spacesOf (originItem c))"
    and "set (itemAsFolderContent item) \<inter> set (spacesOf (originItem c)) = {}"
  shows "mset (allSpaces (emitted rnd n item c t (originItem c)))
         = mset (spacesOf (originItem c)) + mset (itemAsFolderContent item)"
proof (cases c)
  case (DSpace b)
  then show ?thesis
    using assms(1,2)
    by (cases item)
      (auto simp add: emitted_def reorderStep_def originItem_def reorderInit_def allSpaces_def
        push_def dropAround_def threeKinds_def split: option.splits)
next
  case (DFolder cd)
  show ?thesis
  proof (cases "t = MakeChild")
    case True
    then show ?thesis
      using assms(1) DFolder
      by (simp add: emitted_def reorderStep_def originItem_def reorderInit_def allSpaces_def
        push_def)
  next
    case False
    then have t: "t = ReorderAbove \<or> t = ReorderBelow"
      using assms(2) by (simp add: threeKinds_def)
    show ?thesis
    proof (cases "truthy (spaceId cd)")
      case None
      then show ?thesis
        using assms(1) DFolder t
        by (cases item)
          (auto simp add: emitted_def reorderStep_def originItem_def reorderInit_def allSpaces_def
            push_def dropAround_def split: option.splits)
    next
      case (Some cs)
      have mem: "cs \<in> set (content (folder cd))"
        using assms(3) DFolder Some by simp
      have dist: "distinct (content (folder cd))"
        using assms(4) DFolder by (simp add: originItem_def)
      have disj: "set (itemAsFolderContent item) \<inter> set (content (folder cd)) = {}"
        using assms(5) DFolder by (simp add: originItem_def)
      have "mset (placeAround t cs (itemAsFolderContent item) (content (folder cd)))
            = mset (content (folder cd)) + mset (itemAsFolderContent item)"
        using mem dist t by (rule placeAround_mset)
      then show ?thesis
        using assms(1) DFolder Some False
        by (simp add: emitted_def reorderStep_def originItem_def reorderInit_def allSpaces_def
            push_def Let_def filter_disjoint [OF disj])
    qed
  qed
qed

lemma allSpaces_single [simp]: "allSpaces [i] = spacesOf i"
  by (simp add: allSpaces_def)

lemma emitted_same_folder:
  assumes "item = DFolder d" "c = DFolder cd" "folder cd = folder d"
    and "truthy (spaceId d) = Some s" "s \<in> set (content (folder d))"
    and "distinct (content (folder d))" "t = ReorderAbove \<or> t = ReorderBelow"
    and "truthy (spaceId cd) \<noteq> Some s" "present xs c"
  shows "mset (allSpaces (emitted rnd n item c t (Folder (folder d)))) = mset (content (folder d))"
proof -
  let ?fc = "filter (\<lambda>x. x \<noteq> s) (content (folder d))"
  have eq: "mset ?fc + {#s#} = mset (content (folder d))"
    using assms(6,5) by (rule filter_out_mset)
  have same: "sameFolders item c"
    using assms(1-3) by simp
  show ?thesis
  proof (cases "truthy (spaceId cd)")
    case None
    have "allSpaces (emitted rnd n item c t (Folder (folder d)))
          = (if t = ReorderAbove then [s] else []) @ ?fc @ (if t = ReorderBelow then [s] else [])"
      using assms(1-4) None assms(7)
      by (auto simp add: emitted_def reorderStep_def reorderInit_def allSpaces_def
          push_def dropAround_def Let_def)
    then show ?thesis
      using eq assms(7) by (auto simp del: mset_filter)
  next
    case (Some cs)
    then have cs: "cs \<in> set ?fc"
      using assms(2,3,8,9) by auto
    have "allSpaces (emitted rnd n item c t (Folder (folder d))) = placeAround t cs [s] ?fc"
      using assms(1-4) Some assms(7)
      by (auto simp add: emitted_def reorderStep_def reorderInit_def allSpaces_def
          push_def Let_def)
    moreover have "mset (placeAround t cs [s] ?fc) = mset ?fc + mset [s]"
      using cs _ assms(7) by (rule placeAround_mset) (simp add: assms(6))
    ultimately show ?thesis
      using eq by (simp del: mset_filter)
  qed
qed

lemma origins_differ:
  assumes "item \<noteq> c" "\<not> sameFolders item c"
  shows "originItem item \<noteq> originItem c"
  using assms by (cases item; cases c) (auto simp: originItem_def)

lemma reconcile_mset:
  assumes wf: "wellFormed xs item c t" and mv: "sameFolderMove item c t"
  shows "mset (allSpaces (reconcile rnd n xs item c t)) = mset (allSpaces xs)"
proof -
  let ?f = "\<lambda>i. mset (allSpaces (emitted rnd 0 item c t i))"
  let ?g = "\<lambda>i. mset (spacesOf i)"
  have inv: "sidebarInvariant xs" and pi: "present xs item" and pc: "present xs c"
    and ne: "item \<noteq> c" and tk: "threeKinds t"
    using wf by (simp_all add: wellFormed_def)
  have L: "mset (allSpaces (reconcile rnd n xs item c t)) = sum_list (map ?f xs)"
    by (simp add: reconcile_spaces mset_concat o_def)
  have R: "mset (allSpaces xs) = sum_list (map ?g xs)"
    by (simp add: allSpaces_def mset_concat o_def)
  have unm: "?f x = ?g x" if "x \<in> set xs" "x \<noteq> originItem item" "x \<noteq> originItem c" for x
    using that match_origin [OF inv pi, of x] match_origin [OF inv pc, of x]
    by (simp add: emitted_unmatched)
  have "sum_list (map ?f xs) = sum_list (map ?g xs)"
  proof (cases "sameFolders item c")
    case True
    then obtain d cd where dc: "item = DFolder d" "c = DFolder cd"
      "id_folder (folder d) = id_folder (folder cd)"
      by (cases item; cases c) auto
    have Fd: "Folder (folder d) \<in> set xs" and Fc: "Folder (folder cd) \<in> set xs"
      using pi pc dc by simp_all
    have same: "folder cd = folder d"
      using same_id_same_folder [OF _ Fc Fd] inv dc(3) by (simp add: sidebarInvariant_def)
    obtain s where s: "truthy (spaceId d) = Some s" "t \<noteq> MakeChild" "truthy (spaceId cd) \<noteq> Some s"
      using mv dc by (auto split: option.splits)
    have t: "t = ReorderAbove \<or> t = ReorderBelow"
      using tk s(2) by (simp add: threeKinds_def)
    have "?f (Folder (folder d)) = ?g (Folder (folder d))"
      using emitted_same_folder [OF dc(1,2) same s(1) _ _ t s(3) pc, of rnd 0]
        pi dc(1) s(1) invariant_distinct_spaces [OF inv Fd] by simp
    then have "?f x = ?g x" if "x \<in> set xs" for x
      using unm [OF that] dc(1,2) same by (cases "x = Folder (folder d)") (auto simp: originItem_def)
    then show ?thesis
      by (simp cong: map_cong)
  next
    case False
    let ?a = "originItem item" and ?b = "originItem c"
    have ab: "?a \<noteq> ?b" using origins_differ [OF ne False] .
    have a: "?a \<in> set xs" and b: "?b \<in> set xs"
      using pi pc by (simp_all add: origin_present)
    have nm: "\<not> matchDest ?b item"
      using match_origin [OF inv pi b] ab by simp
    have disj: "set (itemAsFolderContent item) \<inter> set (spacesOf ?b) = {}"
      using child_subset [OF pi] invariant_disjoint [OF inv a b ab] by blast
    have e1: "?f ?a + mset (itemAsFolderContent item) = ?g ?a"
      using emitted_origin [OF False inv pi] .
    have e2: "?f ?b = ?g ?b + mset (itemAsFolderContent item)"
      using emitted_container [OF nm tk pc invariant_distinct_spaces [OF inv b] disj] .
    have "?f ?a + ?f ?b = ?g ?a + ?g ?b"
      using e1 e2 by (metis (no_types, lifting) add.assoc add.commute)
    then show ?thesis
      using sum_two_changed [OF invariant_distinct [OF inv] a b ab, of ?f ?g] unm by blast
  qed
  then show ?thesis using L R by simp
qed

lemma step_dispatched_mono:
  "set (dispatched st) \<subseteq> set (dispatched (reorderStep rnd item c t i st))"
  by (auto simp add: reorderStep_def push_def Let_def
      split: SidebarDraggable.splits option.splits prod.splits)

lemma step_quiet:
  assumes "\<not> mintsFolder item c t i"
  shows "randomCalls (reorderStep rnd item c t i st) = randomCalls st"
    and "emitted rnd n item c t i = emitted rnd' n' item c t i"
  using assms
  by (cases c; cases i;
      simp add: mintsFolder_def emitted_def reorderStep_def reorderInit_def push_def Let_def
      split: SidebarDraggable.splits option.splits prod.splits)+

lemma step_mints:
  assumes "mintsFolder item c t i"
  obtains b where "c = DSpace b"
    and "\<And>rnd st. randomCalls (reorderStep rnd item c t i st) = Suc (randomCalls st)"
    and "\<And>rnd n. emitted rnd n item c t i =
          [Folder \<lparr>id_folder = rnd n, name = None, content = b # itemAsFolderContent item\<rparr>]"
proof (cases c)
  case (DSpace b)
  have same: "\<not> sameFolders item c" using DSpace by (cases item) simp_all
  show ?thesis
    using assms DSpace same
    by (intro that [of b])
      (simp_all add: mintsFolder_def emitted_def reorderStep_def reorderInit_def push_def)
next
  case (DFolder cd)
  then show ?thesis using assms by (simp add: mintsFolder_def)
qed

lemma loop_quiet:
  assumes "\<And>i. i \<in> set ys \<Longrightarrow> \<not> mintsFolder item c t i"
  shows "randomCalls (foldl (\<lambda>st i. reorderStep rnd item c t i st) st ys) = randomCalls st \<and>
         newItems (foldl (\<lambda>st i. reorderStep rnd item c t i st) st ys) =
           newItems st @ concat (map (emitted rnd k item c t) ys)"
  using assms
proof (induction ys arbitrary: st)
  case Nil
  then show ?case by simp
next
  case (Cons y ys)
  have q: "\<not> mintsFolder item c t y" using Cons.prems by simp
  have "emitted rnd (randomCalls st) item c t y = emitted rnd k item c t y"
    using q by (rule step_quiet(2))
  then show ?case
    using Cons.IH [of "reorderStep rnd item c t y st"] Cons.prems
    by (simp add: step_quiet(1) [OF q] step_newItems)
qed

lemma loop_dispatched_mono:
  "set (dispatched st) \<subseteq> set (dispatched (foldl (\<lambda>st i. reorderStep rnd item c t i st) st ys))"
proof (induction ys arbitrary: st)
  case Nil
  then show ?case by simp
next
  case (Cons y ys)
  then show ?case
    using step_dispatched_mono [of st rnd item c t y] by (simp, blast)
qed

lemma loop_dispatched_all:
  assumes "\<forall>a \<in> set (dispatched st). P a" "\<And>d. item = DFolder d \<Longrightarrow> P (DELETE (id_folder (folder d)))"
  shows "\<forall>a \<in> set (dispatched (foldl (\<lambda>st i. reorderStep rnd item c t i st) st ys)). P a"
  using assms(1)
proof (induction ys arbitrary: st)
  case Nil
  then show ?case by simp
next
  case (Cons y ys)
  have "\<forall>a \<in> set (dispatched (reorderStep rnd item c t y st)). P a"
    using Cons.prems assms(2)
    by (auto simp add: reorderStep_def push_def Let_def
      split: SidebarDraggable.splits option.splits prod.splits)
  then show ?case
    using Cons.IH [of "reorderStep rnd item c t y st"] by simp
qed

lemma mint_is_container: "mintsFolder item c t i \<Longrightarrow> i = originItem c"
  by (cases c; cases i) (auto simp: mintsFolder_def originItem_def)

lemma loop_concat:
  assumes "distinct xs"
  shows "newItems (reorderLoop rnd n xs item c t) = concat (map (emitted rnd n item c t) xs) \<and>
         randomCalls (reorderLoop rnd n xs item c t) =
           (if \<exists>i \<in> set xs. mintsFolder item c t i then Suc n else n)"
proof (cases "\<exists>i \<in> set xs. mintsFolder item c t i")
  case False
  then show ?thesis
    using loop_quiet [of xs item c t rnd "reorderInit n" n]
    by (auto simp: reorderLoop_def reorderInit_def)
next
  case True
  then obtain i0 where i0: "i0 \<in> set xs" "mintsFolder item c t i0"
    by blast
  obtain ys zs where xs: "xs = ys @ i0 # zs"
    using i0(1) by (auto dest: split_list)
  have out: "i0 \<notin> set ys" "i0 \<notin> set zs"
    using assms xs by auto
  have quiet: "\<not> mintsFolder item c t i" if "i \<in> set ys \<or> i \<in> set zs" for i
    using that out mint_is_container [OF i0(2)] mint_is_container [of item c t i] by auto
  let ?step = "\<lambda>st i. reorderStep rnd item c t i st"
  let ?s1 = "foldl ?step (reorderInit n) ys"
  let ?s2 = "reorderStep rnd item c t i0 ?s1"
  have s1: "randomCalls ?s1 = n" "newItems ?s1 = concat (map (emitted rnd n item c t) ys)"
    using loop_quiet [of ys item c t rnd "reorderInit n" n] quiet
    by (simp_all add: reorderInit_def)
  obtain b where mint: "c = DSpace b"
    "\<And>rnd st. randomCalls (reorderStep rnd item c t i0 st) = Suc (randomCalls st)"
    using step_mints [OF i0(2)] by metis
  have s2: "randomCalls ?s2 = Suc n"
    "newItems ?s2 = concat (map (emitted rnd n item c t) ys) @ emitted rnd n item c t i0"
    using s1 mint(2) by (simp_all add: step_newItems)
  have s3: "randomCalls (foldl ?step ?s2 zs) = Suc n"
    "newItems (foldl ?step ?s2 zs) = newItems ?s2 @ concat (map (emitted rnd n item c t) zs)"
    using loop_quiet [of zs item c t rnd ?s2 n] quiet s2(1) by simp_all
  show ?thesis
    using True s3 s2(2) by (simp add: reorderLoop_def xs)
qed

lemma reconcile_concat:
  "distinct xs \<Longrightarrow> reconcile rnd n xs item c t = concat (map (emitted rnd n item c t) xs)"
  by (simp add: reconcile_def loop_concat)

lemma folderIds_mem: "Folder f \<in> set xs \<Longrightarrow> id_folder f \<in> set (folderIds xs)"
  by (auto simp: folderIds_def foldersOf_mem)

lemma foldersOf_append [simp]: "foldersOf (xs @ ys) = foldersOf xs @ foldersOf ys"
  by (induction xs rule: foldersOf.induct) auto

lemma emitted_ids:
  assumes "present xs item" "present xs c" "i \<in> set xs"
  shows "set (folderIds (emitted rnd k item c t i)) \<subseteq>
         set (folderIds xs) \<union> (if mintsFolder item c t i then {rnd k} else {})"
proof -
  have i: "\<And>f. i = Folder f \<Longrightarrow> id_folder f \<in> set (folderIds xs)"
    using assms(3) by (auto intro: folderIds_mem)
  have d: "\<And>d. item = DFolder d \<Longrightarrow> id_folder (folder d) \<in> set (folderIds xs)"
    using assms(1) by (auto intro: folderIds_mem)
  have cd: "\<And>d. c = DFolder d \<Longrightarrow> id_folder (folder d) \<in> set (folderIds xs)"
    using assms(2) by (auto intro: folderIds_mem)
  show ?thesis
  proof (cases i)
    case (Space s)
    then show ?thesis
      using d cd
      by (cases item; cases c)
        (auto simp add: emitted_def reorderStep_def reorderInit_def push_def Let_def
          dropAround_def folderIds_def mintsFolder_def split: option.splits)
  next
    case (Folder f)
    then show ?thesis
      using d cd i
      by (cases item; cases c)
        (auto simp add: emitted_def reorderStep_def reorderInit_def push_def Let_def
          dropAround_def folderIds_def mintsFolder_def split: option.splits)
  qed
qed

lemma mints_iff:
  assumes "wellFormed xs item c t"
  shows "(\<exists>i \<in> set xs. mintsFolder item c t i) \<longleftrightarrow> (t = MakeChild \<and> isBareSpace c)"
proof
  assume "\<exists>i \<in> set xs. mintsFolder item c t i"
  then show "t = MakeChild \<and> isBareSpace c" by (auto simp: mintsFolder_def)
next
  assume a: "t = MakeChild \<and> isBareSpace c"
  then obtain b where b: "c = DSpace b" by (cases c) auto
  have "Space b \<in> set xs" "item \<noteq> DSpace b"
    using assms b by (simp_all add: wellFormed_def)
  moreover from this have "mintsFolder item c t (Space b)"
    using a b by (cases item) (auto simp: mintsFolder_def)
  ultimately show "\<exists>i \<in> set xs. mintsFolder item c t i" by blast
qed

lemma folderIds_concat: "set (folderIds (concat xss)) = (\<Union>xs \<in> set xss. set (folderIds xs))"
  by (induction xss) (simp_all add: folderIds_def)

lemma mints_kind: "mintsFolder item c t i \<Longrightarrow> t = MakeChild \<and> isBareSpace c"
  by (simp add: mintsFolder_def)

lemma emitted_make_child_bare:
  assumes "a \<noteq> b"
  shows "emitted rnd n (DSpace a) (DSpace b) MakeChild =
     (\<lambda>i. if i = Space a then []
      else if i = Space b
        then [Folder \<lparr>id_folder = rnd n, name = None, content = [b, a]\<rparr>]
      else [i])"
proof
  fix i
  show "emitted rnd n (DSpace a) (DSpace b) MakeChild i =
     (if i = Space a then []
      else if i = Space b
        then [Folder \<lparr>id_folder = rnd n, name = None, content = [b, a]\<rparr>]
      else [i])"
    using assms by (cases i) (auto simp: emitted_def reorderStep_def reorderInit_def push_def)
qed

lemma make_child_folders_absent:
  assumes "Space b \<notin> set xs" "\<forall>f. Folder f \<in> set xs \<longrightarrow> \<not> P f"
  shows "filter P (foldersOf (concat (map (\<lambda>i. if i = Space a then []
      else if i = Space b then [Folder g] else [i]) xs))) = []"
  using assms
proof (induction xs)
  case Nil
  then show ?case by simp
next
  case (Cons x xs)
  then show ?case by (cases x) auto
qed

lemma make_child_folders_once:
  assumes "Space b \<in> set xs" "distinct xs" "\<forall>f. Folder f \<in> set xs \<longrightarrow> \<not> P f" "P g" "a \<noteq> b"
  shows "filter P (foldersOf (concat (map (\<lambda>i. if i = Space a then []
      else if i = Space b then [Folder g] else [i]) xs))) = [g]"
  using assms
proof (induction xs)
  case Nil
  then show ?case by simp
next
  case (Cons x xs)
  show ?case
  proof (cases "x = Space b")
    case True
    then have "Space b \<notin> set xs" using Cons.prems(2) by simp
    then show ?thesis
      using True Cons.prems make_child_folders_absent [of b xs P a g] by simp
  next
    case False
    then show ?thesis
      using Cons by (cases x) auto
  qed
qed

lemma invariant_nonempty: "sidebarInvariant xs \<Longrightarrow> Folder f \<in> set xs \<Longrightarrow> content f \<noteq> []"
  using spacesOf_nonempty [of xs "Folder f"] by simp

lemma placeAround_keeps:
  "cs \<in> set ys \<Longrightarrow> t = ReorderAbove \<or> t = ReorderBelow \<Longrightarrow> cs \<in> set (placeAround t cs child ys)"
  by (induction ys) auto

lemma container_space_kept:
  assumes wf: "wellFormed xs item c t" and mv: "ownFolderSpace item c"
    and c: "c = DFolder cd" "truthy (spaceId cd) = Some cs"
    and br: "sameFolders item c \<or> \<not> matchDest (originItem c) item"
  shows "cs \<in> set (filter (\<lambda>sId. sId \<notin> set (itemAsFolderContent item)) (content (folder cd)))"
proof -
  have inv: "sidebarInvariant xs" and pi: "present xs item" and pc: "present xs c"
    using wf by (simp_all add: wellFormed_def)
  have mem: "cs \<in> set (content (folder cd))"
    using pc c by simp
  have "cs \<notin> set (itemAsFolderContent item)"
  proof (cases "sameFolders item c")
    case True
    then obtain d where d: "item = DFolder d" by (cases item; cases c) auto
    then show ?thesis
      using mv c True by (auto split: option.splits)
  next
    case False
    let ?a = "originItem item" and ?b = "originItem c"
    have a: "?a \<in> set xs" and b: "?b \<in> set xs"
      using pi pc by (simp_all add: origin_present)
    have "?a \<noteq> ?b"
      using br False match_origin [OF inv pi b] by auto
    then have "set (spacesOf ?a) \<inter> set (spacesOf ?b) = {}"
      using invariant_disjoint [OF inv a b] by simp
    moreover have "cs \<in> set (spacesOf ?b)"
      using mem c(1) by (simp add: originItem_def)
    ultimately show ?thesis
      using child_subset [OF pi] by blast
  qed
  then show ?thesis using mem by simp
qed

lemma emitted_nonempty:
  assumes wf: "wellFormed xs item c t" and mv: "ownFolderSpace item c" and i: "i \<in> set xs"
  shows "[] \<notin> set (map content (foldersOf (emitted rnd k item c t i)))"
proof -
  have inv: "sidebarInvariant xs" and pi: "present xs item" and pc: "present xs c"
    and tk: "threeKinds t"
    using wf by (simp_all add: wellFormed_def)
  have ne_i: "\<And>f. i = Folder f \<Longrightarrow> content f \<noteq> []"
    using invariant_nonempty [OF inv] i by simp
  have ne_d: "\<And>d. item = DFolder d \<Longrightarrow> content (folder d) \<noteq> []"
    using invariant_nonempty [OF inv] pi by auto
  have ne_c: "\<And>cd. c = DFolder cd \<Longrightarrow> content (folder cd) \<noteq> []"
    using invariant_nonempty [OF inv] pc by auto
  show ?thesis
  proof (cases "\<not> sameFolders item c \<and> matchDest i item")
    case True
    then show ?thesis
      by (cases item)
        (auto simp add: emitted_def reorderStep_def reorderInit_def push_def Let_def
          split: option.splits)
  next
    case False
    then have notrem: "(\<not> sameFolders item c \<and> matchDest i item) = False"
      by simp
    show ?thesis
    proof (cases "matchDest i c")
      case nc: False
      show ?thesis
        unfolding emitted_def reorderStep_def notrem if_False
        using nc ne_i by (cases i) (simp_all add: reorderInit_def push_def)
    next
      case True
      then have ic: "i = originItem c"
        using match_origin [OF inv pc i] by simp
      show ?thesis
      proof (cases "t = MakeChild")
        case mk: True
        show ?thesis
          unfolding emitted_def reorderStep_def notrem if_False
          using True mk ne_c by (cases c) (simp_all add: reorderInit_def push_def)
      next
        case nmk: False
        then have t: "t = ReorderAbove \<or> t = ReorderBelow"
          using tk by (simp add: threeKinds_def)
        show ?thesis
        proof (cases "case c of DSpace _ \<Rightarrow> None
                  | DFolder cd \<Rightarrow> map_option (Pair cd) (truthy (spaceId cd))")
          case None
          have "[] \<notin> set (map content (foldersOf (dropAround item c t i)))"
          proof (cases item)
            case (DSpace a)
            then show ?thesis
              using ne_i by (cases i) (simp_all add: dropAround_def)
          next
            case (DFolder d)
            then show ?thesis
              using ne_i ne_d
              by (cases i; cases "truthy (spaceId d)") (simp_all add: dropAround_def Let_def)
          qed
          then show ?thesis
            unfolding emitted_def reorderStep_def notrem if_False
            using True nmk None by (simp add: reorderInit_def push_def)
        next
          case (Some p)
          then obtain cd cs where p: "p = (cd, cs)" "c = DFolder cd" "truthy (spaceId cd) = Some cs"
            by (cases c) (auto split: option.splits)
          have "sameFolders item c \<or> \<not> matchDest (originItem c) item"
            using False ic by auto
          then have "cs \<in> set (filter (\<lambda>sId. sId \<notin> set (itemAsFolderContent item))
              (content (folder cd)))"
            by (rule container_space_kept [OF wf mv p(2,3)])
          then have "cs \<in> set (placeAround t cs (itemAsFolderContent item)
              (filter (\<lambda>sId. sId \<notin> set (itemAsFolderContent item)) (content (folder cd))))"
            using t by (rule placeAround_keeps)
          then have "placeAround t cs (itemAsFolderContent item)
              (filter (\<lambda>sId. sId \<notin> set (itemAsFolderContent item)) (content (folder cd))) \<noteq> []"
            by auto
          then show ?thesis
            unfolding emitted_def reorderStep_def notrem if_False
            using True nmk p by (simp add: reorderInit_def push_def Let_def)
        qed
      qed
    qed
  qed
qed

lemma nonempty_concat:
  "[] \<notin> set (map content (foldersOf (concat xss))) \<longleftrightarrow>
   (\<forall>xs \<in> set xss. [] \<notin> set (map content (foldersOf xs)))"
  by (induction xss) auto

lemma removal_clears:
  assumes "present xs item" "item = DFolder d" "truthy (spaceId d) = Some s"
    and "\<not> sameFolders item c" "filter (\<lambda>x. x \<noteq> s) (content (folder d)) = []"
  shows "DELETE (id_folder (folder d)) \<in> set (dispatched (reorderLoop rnd n xs item c t))"
proof -
  have "Folder (folder d) \<in> set xs"
    using assms(1,2) by simp
  then obtain ys zs where xs: "xs = ys @ Folder (folder d) # zs"
    by (auto dest: split_list)
  let ?step = "\<lambda>st i. reorderStep rnd item c t i st"
  let ?s1 = "foldl ?step (reorderInit n) ys"
  have "DELETE (id_folder (folder d)) \<in> set (dispatched (reorderStep rnd item c t (Folder (folder d)) ?s1))"
    using assms(2-5) by (simp add: reorderStep_def)
  then show ?thesis
    using loop_dispatched_mono [of "reorderStep rnd item c t (Folder (folder d)) ?s1" rnd item c t zs]
    by (auto simp: reorderLoop_def xs)
qed

lemma loop_subseq:
  "\<exists>rest. newItems (foldl (\<lambda>st i. reorderStep rnd item c t i st) st ys) = newItems st @ rest \<and>
          subseq (filter (unmatched item c) ys) rest"
proof (induction ys arbitrary: st)
  case Nil
  then show ?case by simp
next
  case (Cons y ys)
  let ?st = "reorderStep rnd item c t y st"
  obtain rest where rest:
    "newItems (foldl (\<lambda>st i. reorderStep rnd item c t i st) ?st ys) = newItems ?st @ rest"
    "subseq (filter (unmatched item c) ys) rest"
    using Cons.IH [of ?st] by blast
  let ?e = "emitted rnd (randomCalls st) item c t y"
  have "subseq (filter (unmatched item c) (y # ys)) (?e @ rest)"
  proof (cases "unmatched item c y")
    case True
    then have "?e = [y]"
      by (simp add: unmatched_def emitted_unmatched)
    then show ?thesis
      using True rest(2) by simp
  next
    case False
    then show ?thesis
      using rest(2) by (simp add: list_emb_append2)
  qed
  then show ?case
    using rest(1) by (simp add: step_newItems)
qed

lemma step_dispatched:
  "dispatched (reorderStep rnd item c t i st) =
   dispatched st @ dispatched (reorderStep rnd' item c t i (reorderInit k))"
  by (simp add: reorderStep_def push_def reorderInit_def Let_def
      split: SidebarDraggable.splits option.splits prod.splits)

lemma loop_same_random:
  assumes "t = MakeChild \<and> isBareSpace c \<longrightarrow> (\<forall>k. rnd (randomCalls st + k) = rnd' (randomCalls st' + k))"
    and "newItems st = newItems st'" "dispatched st = dispatched st'"
  shows "newItems (foldl (\<lambda>st i. reorderStep rnd item c t i st) st ys) =
         newItems (foldl (\<lambda>st i. reorderStep rnd' item c t i st) st' ys) \<and>
         dispatched (foldl (\<lambda>st i. reorderStep rnd item c t i st) st ys) =
         dispatched (foldl (\<lambda>st i. reorderStep rnd' item c t i st) st' ys)"
  using assms
proof (induction ys arbitrary: st st')
  case Nil
  then show ?case by simp
next
  case (Cons y ys)
  let ?s = "reorderStep rnd item c t y st" and ?s' = "reorderStep rnd' item c t y st'"
  have d: "dispatched ?s = dispatched ?s'"
    using Cons.prems(3) step_dispatched [of rnd item c t y st rnd' 0]
      step_dispatched [of rnd' item c t y st' rnd' 0] by simp
  have "newItems ?s = newItems ?s' \<and>
    (t = MakeChild \<and> isBareSpace c \<longrightarrow> (\<forall>k. rnd (randomCalls ?s + k) = rnd' (randomCalls ?s' + k)))"
  proof (cases "mintsFolder item c t y")
    case True
    then obtain b where b: "c = DSpace b"
      "\<And>rnd st. randomCalls (reorderStep rnd item c t y st) = Suc (randomCalls st)"
      "\<And>rnd n. emitted rnd n item c t y =
          [Folder \<lparr>id_folder = rnd n, name = None, content = b # itemAsFolderContent item\<rparr>]"
      using step_mints [OF True] by metis
    have k: "\<forall>k. rnd (randomCalls st + k) = rnd' (randomCalls st' + k)"
      using Cons.prems(1) mints_kind [OF True] by simp
    have r0: "rnd (randomCalls st) = rnd' (randomCalls st')"
      using k [THEN spec, of 0] by simp
    have rs: "rnd (Suc (randomCalls st) + j) = rnd' (Suc (randomCalls st') + j)" for j
      using k [THEN spec, of "Suc j"] by simp
    have rc: "randomCalls ?s = Suc (randomCalls st)" "randomCalls ?s' = Suc (randomCalls st')"
      by (simp_all add: b(2))
    have ni: "newItems ?s = newItems ?s'"
      using Cons.prems(2) r0 by (simp add: step_newItems b(3))
    show ?thesis
      unfolding rc using ni rs by blast
  next
    case False
    have rc: "randomCalls ?s = randomCalls st" "randomCalls ?s' = randomCalls st'"
      by (simp_all add: step_quiet(1) [OF False])
    have ni: "newItems ?s = newItems ?s'"
      using Cons.prems(2) step_quiet(2) [OF False, of rnd "randomCalls st" rnd' "randomCalls st'"]
      by (simp add: step_newItems)
    show ?thesis
      unfolding rc using ni Cons.prems(1) by blast
  qed
  then show ?case
    using Cons.IH [of ?s ?s'] d by simp
qed

lemma emitted_removed_folder:
  assumes inv: "sidebarInvariant xs" and pi: "present xs item" and pc: "present xs c"
    and i: "i \<in> set xs"
    and d: "item = DFolder d" "truthy (spaceId d) = Some s" "\<not> sameFolders item c"
      "content (folder d) = [s]"
    and mem: "id_folder (folder d) \<in> set (folderIds (emitted rnd k item c t i))"
  shows "mintsFolder item c t i \<and> rnd k = id_folder (folder d)"
proof (cases "matchDest i item")
  case True
  then have "emitted rnd k item c t i = []"
    using d by (simp add: emitted_def reorderStep_def reorderInit_def)
  then show ?thesis using mem by (simp add: folderIds_def)
next
  case nm: False
  have Fd: "Folder (folder d) \<in> set xs" using pi d(1) by simp
  have other: "id_folder f \<noteq> id_folder (folder d)" if "i = Folder f" for f
    using nm that d(1) by simp
  show ?thesis
  proof (cases "matchDest i c")
    case False
    then have "emitted rnd k item c t i = [i]"
      using nm by (rule emitted_unmatched [rotated])
    then show ?thesis
      using mem other by (cases i) (simp_all add: folderIds_def)
  next
    case True
    show ?thesis
    proof (cases c)
      case (DSpace b)
      then show ?thesis
        using mem nm True d(1,2)
        by (cases i)
          (auto simp add: emitted_def reorderStep_def reorderInit_def push_def folderIds_def
            dropAround_def mintsFolder_def split: if_splits)
    next
      case (DFolder cd)
      have ne: "id_folder (folder cd) \<noteq> id_folder (folder d)"
        using d(1,3) DFolder by simp
      show ?thesis
        using mem nm True d(1,2) DFolder ne other
        by (cases i; cases "truthy (spaceId cd)")
          (auto simp add: emitted_def reorderStep_def reorderInit_def push_def folderIds_def
            dropAround_def Let_def split: if_splits)
    qed
  qed
qed

lemma sameFolderMove_own: "sameFolderMove item c t \<Longrightarrow> ownFolderSpace item c"
  by (cases item; cases c) (auto split: option.splits if_splits)

lemma emitted_folder_on_itself:
  assumes inv: "sidebarInvariant xs" and pi: "present xs item" and pc: "present xs c"
    and i: "i \<in> set xs" and same: "sameFolders item c"
    and d: "item = DFolder d" "truthy (spaceId d) = None"
    and cd: "c = DFolder cd" "truthy (spaceId cd) = None"
    and t: "t = ReorderAbove \<or> t = ReorderBelow"
  shows "set (allSpaces (emitted rnd k item c t i)) = set (spacesOf i)"
proof (cases "matchDest i c")
  case False
  moreover have "\<not> matchDest i item"
    using False same d(1) cd(1) by (cases i) simp_all
  ultimately show ?thesis
    by (simp add: emitted_unmatched)
next
  case True
  then have "i = Folder (folder cd)"
    using match_origin [OF inv pc i] cd(1) by (simp add: originItem_def)
  moreover have "folder cd = folder d"
    using same_id_same_folder [of xs "folder cd" "folder d"] inv pi pc same d(1) cd(1)
    by (simp add: sidebarInvariant_def)
  ultimately show ?thesis
    using same d cd t
    by (auto simp add: emitted_def reorderStep_def reorderInit_def push_def dropAround_def
        allSpaces_def)
qed

lemma reconcile_spaces_set:
  "set (allSpaces (reconcile rnd n xs item c t)) =
   (\<Union>i \<in> set xs. set (allSpaces (emitted rnd 0 item c t i)))"
  by (simp add: reconcile_spaces)

text \<open>
  On the three instruction kinds the loop handles, for a drag item and a container that
  are distinct and present: when the two name the same folder only in the way
  \<open>sameFolderMove\<close> allows, every space id of the input occurs exactly once in the output.
\<close>

lemma three_kinds_no_duplication:
  assumes "wellFormed xs item c t" and "sameFolderMove item c t"
  shows "distinct (allSpaces (reconcile rnd n xs item c t)) \<and>
         set (allSpaces (reconcile rnd n xs item c t)) = set (allSpaces xs)"
proof -
  have m: "mset (allSpaces (reconcile rnd n xs item c t)) = mset (allSpaces xs)"
    using assms by (rule reconcile_mset)
  have "distinct (allSpaces xs)"
    using assms(1) by (simp add: wellFormed_def sidebarInvariant_def)
  then have "distinct (allSpaces (reconcile rnd n xs item c t))"
    using m by (metis mset_eq_imp_distinct_iff)
  moreover have "set (allSpaces (reconcile rnd n xs item c t)) = set (allSpaces xs)"
    using m by (rule mset_eq_setD)
  ultimately show ?thesis by simp
qed

text \<open>
  With a reorder instruction, under \<open>ownFolderSpace\<close>, the set of space ids is kept.
\<close>

lemma own_folder_space_set:
  assumes wf: "wellFormed xs item c t" and own: "ownFolderSpace item c"
    and t: "t = ReorderAbove \<or> t = ReorderBelow"
  shows "set (allSpaces (reconcile rnd n xs item c t)) = set (allSpaces xs)"
proof (cases "sameFolderMove item c t")
  case True
  show ?thesis
    using reconcile_mset [OF wf True] by (rule mset_eq_setD)
next
  case False
  then obtain d cd where dc: "item = DFolder d" "c = DFolder cd" "sameFolders item c"
    by (cases item; cases c) (auto split: if_splits)
  have nd: "truthy (spaceId d) = None" and ncd: "truthy (spaceId cd) = None"
    using False own dc t by (auto split: option.splits if_splits)
  have inv: "sidebarInvariant xs" and pi: "present xs item" and pc: "present xs c"
    using wf by (simp_all add: wellFormed_def)
  have "set (allSpaces (emitted rnd 0 item c t i)) = set (spacesOf i)" if "i \<in> set xs" for i
    using inv pi pc that dc(3,1) nd dc(2) ncd t by (rule emitted_folder_on_itself)
  then have "set (allSpaces (reconcile rnd n xs item c t)) = (\<Union>i \<in> set xs. set (spacesOf i))"
    by (simp add: reconcile_spaces_set)
  also have "\<dots> = set (allSpaces xs)"
    by (simp add: allSpaces_def)
  finally show ?thesis .
qed

text \<open>
  Under \<open>ownFolderSpace\<close> no folder of the output is empty, and a folder that the removal
  phase empties has its DELETE dispatched and its id removed from the output.
\<close>

lemma own_folder_space_nonempty:
  assumes "wellFormed xs item c t" and "ownFolderSpace item c"
  shows "[] \<notin> set (map content (foldersOf (reconcile rnd n xs item c t))) \<and>
         (\<forall>d s. item = DFolder d \<and> truthy (spaceId d) = Some s \<and> \<not> sameFolders item c \<and>
                content (folder d) = [s] \<longrightarrow>
            DELETE (id_folder (folder d)) \<in> set (dispatched (reorderLoop rnd n xs item c t)) \<and>
            (id_folder (folder d) \<in> set (folderIds (reconcile rnd n xs item c t)) \<longrightarrow>
               t = MakeChild \<and> isBareSpace c \<and> rnd n = id_folder (folder d)))"
proof -
  have inv: "sidebarInvariant xs" and pi: "present xs item" and pc: "present xs c"
    using assms(1) by (simp_all add: wellFormed_def)
  have out: "reconcile rnd n xs item c t = concat (map (emitted rnd n item c t) xs)"
    by (rule reconcile_concat [OF invariant_distinct [OF inv]])
  have "[] \<notin> set (map content (foldersOf (concat (map (emitted rnd n item c t) xs))))"
    unfolding nonempty_concat using emitted_nonempty [OF assms, of _ rnd n] by simp
  then have ne: "[] \<notin> set (map content (foldersOf (reconcile rnd n xs item c t)))"
    by (simp add: out)
  have "DELETE (id_folder (folder d)) \<in> set (dispatched (reorderLoop rnd n xs item c t)) \<and>
      (id_folder (folder d) \<in> set (folderIds (reconcile rnd n xs item c t)) \<longrightarrow>
         t = MakeChild \<and> isBareSpace c \<and> rnd n = id_folder (folder d))"
    if d: "item = DFolder d" "truthy (spaceId d) = Some s" "\<not> sameFolders item c"
      "content (folder d) = [s]" for d s
  proof
    show "DELETE (id_folder (folder d)) \<in> set (dispatched (reorderLoop rnd n xs item c t))"
      using removal_clears [OF pi d(1,2,3), of rnd n t] d(4) by simp
    show "id_folder (folder d) \<in> set (folderIds (reconcile rnd n xs item c t)) \<longrightarrow>
         t = MakeChild \<and> isBareSpace c \<and> rnd n = id_folder (folder d)"
    proof
      assume "id_folder (folder d) \<in> set (folderIds (reconcile rnd n xs item c t))"
      then obtain i where i: "i \<in> set xs"
        "id_folder (folder d) \<in> set (folderIds (emitted rnd n item c t i))"
        unfolding out folderIds_concat by auto
      have "mintsFolder item c t i \<and> rnd n = id_folder (folder d)"
        using inv pi pc i(1) d i(2) by (rule emitted_removed_folder)
      then show "t = MakeChild \<and> isBareSpace c \<and> rnd n = id_folder (folder d)"
        using mints_kind by blast
    qed
  qed
  then show ?thesis using ne by blast
qed

lemma tabs_spaces:
  "map (\<lambda>d. case d of DSpace s \<Rightarrow> s
              | DFolder fd \<Rightarrow> (case spaceId fd of Some s \<Rightarrow> s | None \<Rightarrow> []))
     (tabDraggables getRoom xs) = filter getRoom (allSpaces xs)"
proof (induction xs)
  case Nil
  then show ?case by (simp add: tabDraggables_def allSpaces_def)
next
  case (Cons x xs)
  then show ?case
    by (cases x) (simp_all add: tabDraggables_def allSpaces_def spaceDraggable_def o_def)
qed

lemma tabs_distinct:
  assumes "sidebarInvariant xs"
  shows "distinct (tabDraggables getRoom xs)"
proof -
  have "distinct (filter getRoom (allSpaces xs))"
    using assms by (simp add: sidebarInvariant_def)
  then show ?thesis
    unfolding tabs_spaces [symmetric] by (simp add: distinct_map)
qed

lemma tab_cases:
  assumes "d \<in> set (tabDraggables getRoom xs)"
  obtains (bare) s where "d = DSpace s" "Space s \<in> set xs" "getRoom s"
  | (inside) f s where "d = DFolder \<lparr>folder = f, spaceId = Some s, open_folder = None\<rparr>"
      "Folder f \<in> set xs" "s \<in> set (content f)" "getRoom s"
proof -
  from assms obtain i where i: "i \<in> set xs"
    "d \<in> set (case i of Folder f \<Rightarrow> map (spaceDraggable (Some f)) (filter getRoom (content f))
                | Space s \<Rightarrow> if getRoom s then [spaceDraggable None s] else [])"
    by (auto simp: tabDraggables_def)
  show ?thesis
  proof (cases i)
    case (Space s)
    then show ?thesis
      using i by (intro bare [of s]) (auto simp: spaceDraggable_def split: if_splits)
  next
    case (Folder f)
    then obtain s where "s \<in> set (content f)" "getRoom s" "d = spaceDraggable (Some f) s"
      using i by auto
    then show ?thesis
      using i(1) Folder by (intro inside [of f s]) (auto simp: spaceDraggable_def)
  qed
qed

lemma tab_present:
  assumes "d \<in> set (tabDraggables getRoom xs)" "\<not> getRoom []"
  shows "present xs d"
  using assms(1)
proof (cases rule: tab_cases)
  case (bare s)
  then show ?thesis by simp
next
  case (inside f s)
  then have "s \<noteq> []" using assms(2) by auto
  then show ?thesis using inside by (simp add: truthy_def)
qed

lemma tabs_same_folder_move:
  assumes inv: "sidebarInvariant xs" and nr: "\<not> getRoom []"
    and item: "item \<in> set (tabDraggables getRoom xs)"
    and c: "c \<in> set (tabDraggables getRoom xs)"
    and ne: "item \<noteq> c"
  shows "ownFolderSpace item c" and "t \<notin> set (blockList c) \<Longrightarrow> sameFolderMove item c t"
proof -
  have both: "ownFolderSpace item c \<and> (t \<notin> set (blockList c) \<longrightarrow> sameFolderMove item c t)"
    using item
  proof (cases rule: tab_cases)
    case (bare s)
    then show ?thesis by simp
  next
    case item: (inside f s)
    show ?thesis
      using c
    proof (cases rule: tab_cases)
      case (bare s')
      then show ?thesis using item by simp
    next
      case c: (inside g s')
      have s: "s \<noteq> []" "s' \<noteq> []"
        using nr item(4) c(4) by auto
      show ?thesis
      proof (cases "id_folder f = id_folder g")
        case False
        then show ?thesis using item(1) c(1) by simp
      next
        case True
        then have "f = g"
          using same_id_same_folder [of xs f g] inv item(2) c(2)
          by (simp add: sidebarInvariant_def)
        then have "s \<noteq> s'"
          using ne item(1) c(1) by auto
        then show ?thesis
          using item(1) c(1) s True by (simp add: truthy_def blockList_def)
      qed
    qed
  qed
  show "ownFolderSpace item c" using both by simp
  show "t \<notin> set (blockList c) \<Longrightarrow> sameFolderMove item c t" using both by simp
qed

lemma tabs_wellFormed:
  assumes "sidebarInvariant xs" "\<not> getRoom []"
    "item \<in> set (tabDraggables getRoom xs)" "c \<in> set (tabDraggables getRoom xs)"
    "item \<noteq> c" "threeKinds t"
  shows "wellFormed xs item c t"
  using assms by (simp add: wellFormed_def tab_present)

text \<open>
  On every drag the tabs deliver with one of the three kinds, not blocked by the target,
  every space id of the input occurs exactly once in the output and no folder of the
  output is empty.
\<close>

lemma tabs_three_kinds:
  assumes "sidebarInvariant xs" "\<not> getRoom []"
    "item \<in> set (tabDraggables getRoom xs)" "c \<in> set (tabDraggables getRoom xs)"
    "item \<noteq> c" "threeKinds t" "t \<notin> set (blockList c)"
  shows "distinct (allSpaces (reconcile rnd n xs item c t))"
    and "set (allSpaces (reconcile rnd n xs item c t)) = set (allSpaces xs)"
    and "[] \<notin> set (map content (foldersOf (reconcile rnd n xs item c t)))"
proof -
  have wf: "wellFormed xs item c t"
    using assms(1-6) by (rule tabs_wellFormed)
  have mv: "sameFolderMove item c t"
    using assms(1-5,7) by (rule tabs_same_folder_move(2))
  have own: "ownFolderSpace item c"
    using assms(1-5) by (rule tabs_same_folder_move(1))
  show "distinct (allSpaces (reconcile rnd n xs item c t))"
    and "set (allSpaces (reconcile rnd n xs item c t)) = set (allSpaces xs)"
    using three_kinds_no_duplication [OF wf mv, of rnd n] by simp_all
  show "[] \<notin> set (map content (foldersOf (reconcile rnd n xs item c t)))"
    using own_folder_space_nonempty [OF wf own, of rnd n] by simp
qed

lemma strictNotEqual_iff: "strictNotEqual a b \<longleftrightarrow> a \<noteq> b"
  by (cases a; cases b) (simp_all add: strictNotEqual_def)

lemma tabRef_eq_iff:
  assumes "distinct tabs" "j < length tabs" "k < length tabs"
  shows "tabRef tabs j = tabRef tabs k \<longleftrightarrow> tabs ! j = tabs ! k"
proof (cases "tabs ! j")
  case (DSpace s)
  then show ?thesis
    using assms by (cases "tabs ! k") (simp_all add: tabRef_def)
next
  case (DFolder d)
  show ?thesis
  proof (cases "tabs ! k")
    case (DSpace s)
    then show ?thesis using DFolder assms by (simp add: tabRef_def)
  next
    case k: (DFolder e)
    have "tabs ! j = tabs ! k \<longleftrightarrow> j = k"
      using assms by (simp add: nth_eq_iff_index_eq)
    then show ?thesis
      using DFolder k assms by (simp add: tabRef_def)
  qed
qed

lemmas ex_defs = exF1_def exItems_def exF2_def exItems2_def dragC_def dragD_def
  dragE_def rndNew_def rndOther_def hasRoom_def exClient_def

lemmas run_defs = reconcile_def reorderLoop_def reorderStep_def reorderInit_def push_def
  dropAround_def truthy_def Let_def

lemmas wf_defs = wellFormed_def sidebarInvariant_def allSpaces_def folderIds_def threeKinds_def

lemmas tab_defs = tabDraggables_def spaceDraggable_def tabRef_def monitorDropTargets_def
  getData_def tabDrop_def

section \<open>Conservation of the space ids\<close>

text \<open>
  C4. For every well-formed input (a sidebar satisfying the invariants, the drag item and
  the container two different tabs of it, no room with an empty id) with instruction
  reorder-above or reorder-below, the set of all space ids of the output, top level and
  folder contents together, equals the set of the input.
\<close>

theorem reorder_preserves_set:
  assumes "sidebarInvariant xs" and "\<not> getRoom []"
    and "item \<in> set (tabDraggables getRoom xs)" and "c \<in> set (tabDraggables getRoom xs)"
    and "item \<noteq> c" and "t = ReorderAbove \<or> t = ReorderBelow"
  shows "set (allSpaces (reconcile rnd n xs item c t)) = set (allSpaces xs)"
proof -
  have tk: "threeKinds t"
    using assms(6) by (auto simp: threeKinds_def)
  have wf: "wellFormed xs item c t"
    using assms(1-5) tk by (rule tabs_wellFormed)
  have own: "ownFolderSpace item c"
    using assms(1-5) by (rule tabs_same_folder_move(1))
  show ?thesis
    using wf own assms(6) by (rule own_folder_space_set)
qed

text \<open>C dragged below D inside F1.\<close>

theorem reorder_preserves_set_witness:
  "tabDraggables hasRoom exItems = [DSpace ''A'', DSpace ''B'', dragC, dragD] \<and>
   reconcile rndNew 0 exItems dragC dragD ReorderBelow =
     [Space ''A'', Space ''B'', Folder (exF1\<lparr>content := [''D'', ''C'']\<rparr>)] \<and>
   set (allSpaces (reconcile rndNew 0 exItems dragC dragD ReorderBelow)) = set (allSpaces exItems)"
proof -
  have tabs: "tabDraggables hasRoom exItems = [DSpace ''A'', DSpace ''B'', dragC, dragD]"
    by (simp add: tab_defs ex_defs)
  have inv: "sidebarInvariant exItems"
    by (simp add: wf_defs ex_defs)
  have nr: "\<not> hasRoom []"
    by (simp add: hasRoom_def)
  have c: "dragC \<in> set (tabDraggables hasRoom exItems)"
    and d: "dragD \<in> set (tabDraggables hasRoom exItems)"
    by (simp_all add: tabs)
  have ne: "dragC \<noteq> dragD"
    by (simp add: ex_defs)
  have t: "ReorderBelow = ReorderAbove \<or> ReorderBelow = ReorderBelow"
    by simp
  have out: "reconcile rndNew 0 exItems dragC dragD ReorderBelow =
     [Space ''A'', Space ''B'', Folder (exF1\<lparr>content := [''D'', ''C'']\<rparr>)]"
    by (simp add: ex_defs run_defs)
  show ?thesis
    using tabs out reorder_preserves_set [OF inv nr c d ne t, of rndNew 0] by blast
qed

section \<open>Drops that arrive with a blocked instruction\<close>

text \<open>
  C1. Every space id should occur exactly once in the output. The code breaks this on a
  drop the tabs deliver: the bare space A dropped on the middle of the tab of C inside F1.
  The target blocks make-child, the instruction arrives with the type
  \<open>instruction-blocked\<close>, the monitor passes it on, and the branch for a drop inside a
  folder then pushes neither the container's id nor the dragged id: A and C are lost.
\<close>

theorem blocked_drop_loses_spaces:
  "sidebarInvariant exItems \<and>
   tabDraggables hasRoom exItems = [DSpace ''A'', DSpace ''B'', dragC, dragD] \<and>
   MakeChild \<in> set (blockList dragC) \<and>
   reconcile rndNew 0 exItems (DSpace ''A'') dragC InstructionBlocked =
     [Space ''B'', Folder (exF1\<lparr>content := [''D'']\<rparr>)] \<and>
   sidebarItems (tabDrop id id rndNew (tabDraggables hasRoom exItems) 0
       [\<lparr>hit_tab = 2, hit_instruction = Some InstructionBlocked\<rparr>] exClient) =
     [Space ''B'', Folder (exF1\<lparr>content := [''D'']\<rparr>)]"
proof -
  have tabs: "tabDraggables hasRoom exItems = [DSpace ''A'', DSpace ''B'', dragC, dragD]"
    by (simp add: tab_defs ex_defs)
  have inv: "sidebarInvariant exItems"
    by (simp add: wf_defs ex_defs)
  have blk: "MakeChild \<in> set (blockList dragC)"
    by (simp add: blockList_def dragC_def truthy_def)
  have out: "reconcile rndNew 0 exItems (DSpace ''A'') dragC InstructionBlocked =
     [Space ''B'', Folder (exF1\<lparr>content := [''D'']\<rparr>)]"
    by (simp add: ex_defs run_defs)
  have targets: "monitorDropTargets [DSpace ''A'', DSpace ''B'', dragC, dragD] 0
       [\<lparr>hit_tab = 2, hit_instruction = Some InstructionBlocked\<rparr>] =
     [\<lparr>target_item = dragC, target_instructionType = Some InstructionBlocked\<rparr>]"
    by (simp add: monitorDropTargets_def getData_def tabRef_def useDropTarget_canDrop_def
        strictNotEqual_def dragC_def)
  have "sidebarItems (tabDrop id id rndNew [DSpace ''A'', DSpace ''B'', dragC, dragD] 0
       [\<lparr>hit_tab = 2, hit_instruction = Some InstructionBlocked\<rparr>] exClient) =
     reconcile rndNew 0 exItems (DSpace ''A'') dragC InstructionBlocked"
    by (simp add: tabDrop_def targets onDrop_def onReorder_def reconcile_def exClient_def Let_def)
  then show ?thesis
    using tabs inv blk out by simp
qed

text \<open>
  C2. No folder of the output should be empty. The code breaks this on a drop the tabs
  deliver: the space C of F1 dropped on the middle of the tab of D, the other space of F1.
  The instruction arrives with the type \<open>instruction-blocked\<close>; the filter takes C out of
  the content of F1, the container's id D is pushed by neither test on the instruction, and
  F1 is pushed with an empty content.
\<close>

theorem blocked_drop_empties_folder:
  "MakeChild \<in> set (blockList dragD) \<and>
   reconcile rndNew 0 exItems dragC dragD InstructionBlocked =
     [Space ''A'', Space ''B'', Folder (exF1\<lparr>content := []\<rparr>)] \<and>
   [] \<in> set (map content (foldersOf (reconcile rndNew 0 exItems dragC dragD InstructionBlocked))) \<and>
   sidebarItems (tabDrop id id rndNew (tabDraggables hasRoom exItems) 2
       [\<lparr>hit_tab = 3, hit_instruction = Some InstructionBlocked\<rparr>] exClient) =
     [Space ''A'', Space ''B'', Folder (exF1\<lparr>content := []\<rparr>)]"
proof -
  have tabs: "tabDraggables hasRoom exItems = [DSpace ''A'', DSpace ''B'', dragC, dragD]"
    by (simp add: tab_defs ex_defs)
  have blk: "MakeChild \<in> set (blockList dragD)"
    by (simp add: blockList_def dragD_def truthy_def)
  have out: "reconcile rndNew 0 exItems dragC dragD InstructionBlocked =
     [Space ''A'', Space ''B'', Folder (exF1\<lparr>content := []\<rparr>)]"
    by (simp add: ex_defs run_defs)
  have targets: "monitorDropTargets [DSpace ''A'', DSpace ''B'', dragC, dragD] 2
       [\<lparr>hit_tab = 3, hit_instruction = Some InstructionBlocked\<rparr>] =
     [\<lparr>target_item = dragD, target_instructionType = Some InstructionBlocked\<rparr>]"
    by (simp add: monitorDropTargets_def getData_def tabRef_def useDropTarget_canDrop_def
        strictNotEqual_def dragC_def dragD_def)
  have "sidebarItems (tabDrop id id rndNew [DSpace ''A'', DSpace ''B'', dragC, dragD] 2
       [\<lparr>hit_tab = 3, hit_instruction = Some InstructionBlocked\<rparr>] exClient) =
     reconcile rndNew 0 exItems dragC dragD InstructionBlocked"
    by (simp add: tabDrop_def targets onDrop_def onReorder_def reconcile_def exClient_def Let_def)
  then show ?thesis
    using tabs blk out by simp
qed

section \<open>Scenarios\<close>

text \<open>
  C7. Dragging the space C out of the folder F1 with content C, D and dropping it
  reorder-above the top-level space A, in the sidebar A, B, F1, gives C, A, B followed by
  F1 with content D.
\<close>

theorem scenario_pull_out:
  "reconcile rnd n exItems dragC (DSpace ''A'') ReorderAbove =
     [Space ''C'', Space ''A'', Space ''B'', Folder (exF1\<lparr>content := [''D'']\<rparr>)]"
  by (simp add: ex_defs run_defs)

section \<open>Folder ids\<close>

text \<open>
  C5. For every well-formed input, every folder id of the output is the id of a folder of
  the input, or it is the one id drawn from \<open>randomStr\<close> by a make-child whose container is a
  bare space: \<open>randomStr\<close> is called once in that case and never otherwise.
\<close>

theorem folder_ids_stable:
  assumes "wellFormed xs item c t"
  shows "set (folderIds (reconcile rnd n xs item c t)) \<subseteq>
           set (folderIds xs) \<union> (if t = MakeChild \<and> isBareSpace c then {rnd n} else {}) \<and>
         randomCalls (reorderLoop rnd n xs item c t) =
           (if t = MakeChild \<and> isBareSpace c then Suc n else n)"
proof -
  let ?B = "set (folderIds xs) \<union> (if t = MakeChild \<and> isBareSpace c then {rnd n} else {})"
  have inv: "sidebarInvariant xs" and pi: "present xs item" and pc: "present xs c"
    using assms by (simp_all add: wellFormed_def)
  have dist: "distinct xs" using inv by (rule invariant_distinct)
  have per: "set (folderIds (emitted rnd n item c t i)) \<subseteq> ?B" if "i \<in> set xs" for i
  proof (cases "mintsFolder item c t i")
    case True
    then show ?thesis
      using emitted_ids [OF pi pc that, of rnd n t] mints_kind [OF True] by simp
  next
    case False
    then show ?thesis
      using emitted_ids [OF pi pc that, of rnd n t] by auto
  qed
  have "set (folderIds (concat (map (emitted rnd n item c t) xs))) =
          (\<Union>i \<in> set xs. set (folderIds (emitted rnd n item c t i)))"
    by (simp add: folderIds_concat)
  then have "set (folderIds (concat (map (emitted rnd n item c t) xs))) \<subseteq> ?B"
    using per by blast
  then have "set (folderIds (reconcile rnd n xs item c t)) \<subseteq> ?B"
    by (simp add: reconcile_concat [OF dist])
  moreover have "randomCalls (reorderLoop rnd n xs item c t) =
           (if t = MakeChild \<and> isBareSpace c then Suc n else n)"
    using loop_concat [OF dist, of rnd n item c t] mints_iff [OF assms] by simp
  ultimately show ?thesis by simp
qed

text \<open>The space C of F1 made a child of the bare space B.\<close>

theorem folder_ids_stable_witness:
  "wellFormed exItems dragC (DSpace ''B'') MakeChild \<and>
   folderIds (reconcile rndNew 0 exItems dragC (DSpace ''B'') MakeChild) = [''new'', ''F1''] \<and>
   set (folderIds (reconcile rndNew 0 exItems dragC (DSpace ''B'') MakeChild))
     \<subseteq> set (folderIds exItems) \<union> {rndNew 0} \<and>
   randomCalls (reorderLoop rndNew 0 exItems dragC (DSpace ''B'') MakeChild) = Suc 0"
proof -
  have wf: "wellFormed exItems dragC (DSpace ''B'') MakeChild"
    by (simp add: wf_defs ex_defs truthy_def)
  have ids: "folderIds (reconcile rndNew 0 exItems dragC (DSpace ''B'') MakeChild) = [''new'', ''F1'']"
    by (simp add: folderIds_def ex_defs run_defs)
  show ?thesis
    using wf ids folder_ids_stable [OF wf, of rndNew 0] by simp
qed

section \<open>Make-child of two bare spaces\<close>

text \<open>
  C3. Dragging a bare space a onto another bare space b with make-child gives an output
  with neither a nor b at the top level, in which exactly one folder holds a or b: the
  new folder, with the id drawn from \<open>randomStr\<close> and the content b, a (container first).
  For the sidebar A, B, F1 the output is the new folder with content B, A followed by F1.
\<close>

theorem make_child_of_bare_spaces:
  assumes "sidebarInvariant xs" "Space a \<in> set xs" "Space b \<in> set xs" "a \<noteq> b"
  shows "Space a \<notin> set (reconcile rnd n xs (DSpace a) (DSpace b) MakeChild) \<and>
         Space b \<notin> set (reconcile rnd n xs (DSpace a) (DSpace b) MakeChild) \<and>
         filter (\<lambda>f. a \<in> set (content f) \<or> b \<in> set (content f))
           (foldersOf (reconcile rnd n xs (DSpace a) (DSpace b) MakeChild)) =
           [\<lparr>id_folder = rnd n, name = None, content = [b, a]\<rparr>] \<and>
         reconcile rnd n exItems (DSpace ''A'') (DSpace ''B'') MakeChild =
           [Folder \<lparr>id_folder = rnd n, name = None, content = [''B'', ''A'']\<rparr>, Folder exF1]"
proof -
  let ?g = "\<lparr>id_folder = rnd n, name = None, content = [b, a]\<rparr>"
  let ?E = "\<lambda>i. if i = Space a then [] else if i = Space b then [Folder ?g] else [i]"
  have dist: "distinct xs" using assms(1) by (rule invariant_distinct)
  have out: "reconcile rnd n xs (DSpace a) (DSpace b) MakeChild = concat (map ?E xs)"
    by (simp add: reconcile_concat [OF dist] emitted_make_child_bare [OF assms(4)])
  have no: "\<forall>f. Folder f \<in> set xs \<longrightarrow> \<not> (a \<in> set (content f) \<or> b \<in> set (content f))"
    using invariant_disjoint [OF assms(1,2)] invariant_disjoint [OF assms(1,3)] by fastforce
  have "Space a \<notin> set (concat (map ?E xs))" "Space b \<notin> set (concat (map ?E xs))"
    by auto
  moreover have "filter (\<lambda>f. a \<in> set (content f) \<or> b \<in> set (content f))
      (foldersOf (concat (map ?E xs))) = [?g]"
    using assms(3) dist no _ assms(4) by (rule make_child_folders_once) simp
  moreover have "reconcile rnd n exItems (DSpace ''A'') (DSpace ''B'') MakeChild =
           [Folder \<lparr>id_folder = rnd n, name = None, content = [''B'', ''A'']\<rparr>, Folder exF1]"
    by (simp add: ex_defs run_defs)
  ultimately show ?thesis
    unfolding out by simp
qed

text \<open>The scenario, with \<open>randomStr\<close> returning \<open>new\<close>.\<close>

theorem make_child_of_bare_spaces_witness:
  "sidebarInvariant exItems \<and>
   Space ''A'' \<notin> set (reconcile rndNew 0 exItems (DSpace ''A'') (DSpace ''B'') MakeChild) \<and>
   Space ''B'' \<notin> set (reconcile rndNew 0 exItems (DSpace ''A'') (DSpace ''B'') MakeChild) \<and>
   filter (\<lambda>f. ''A'' \<in> set (content f) \<or> ''B'' \<in> set (content f))
     (foldersOf (reconcile rndNew 0 exItems (DSpace ''A'') (DSpace ''B'') MakeChild)) =
     [\<lparr>id_folder = ''new'', name = None, content = [''B'', ''A'']\<rparr>]"
proof -
  have inv: "sidebarInvariant exItems"
    by (simp add: wf_defs ex_defs)
  have a: "Space ''A'' \<in> set exItems" and b: "Space ''B'' \<in> set exItems"
    by (simp_all add: ex_defs)
  have ne: "''A'' \<noteq> ''B''" by simp
  show ?thesis
    using inv make_child_of_bare_spaces [OF inv a b ne, of rndNew 0] by (simp add: rndNew_def exF1_def)
qed

section \<open>Unmatched items\<close>

text \<open>
  C8. Every item of the sidebar that matches neither the drag item nor the container is
  pushed to the output as it is, and these items keep their relative order: they form a
  subsequence of the output. This holds for every input.
\<close>

theorem unmatched_pass_through:
  "subseq (filter (unmatched item c) xs) (reconcile rnd n xs item c t)"
  using loop_subseq [of rnd item c t "reorderInit n" xs]
  by (auto simp: reconcile_def reorderLoop_def reorderInit_def)

text \<open>C dragged out of F1 above A: B is the unmatched item.\<close>

theorem unmatched_pass_through_witness:
  "filter (unmatched dragC (DSpace ''A'')) exItems = [Space ''B''] \<and>
   subseq [Space ''B''] (reconcile rndNew 0 exItems dragC (DSpace ''A'') ReorderAbove)"
proof -
  have f: "filter (unmatched dragC (DSpace ''A'')) exItems = [Space ''B'']"
    by (simp add: unmatched_def ex_defs)
  show ?thesis
    using f unmatched_pass_through [of dragC "DSpace ''A''" exItems rndNew 0 ReorderAbove]
    by simp
qed

section \<open>Effects of the reconciliation\<close>

text \<open>
  C6 (as amended). The reconciliation is not a pure function of its four inputs. Two runs
  on the same input give equal outputs and dispatch the same actions when \<open>randomStr\<close>
  returns the same strings in both, which matters only for a make-child whose container is
  a bare space. Besides building the new item list, a run dispatches to the opened-folder
  state, and only DELETE actions for the id of the drag item's folder. The callback itself
  applies the new list as the local echo and writes it to the account data.
\<close>

theorem reconcile_effects:
  assumes "t = MakeChild \<and> isBareSpace c \<longrightarrow> (\<forall>k. rnd (n + k) = rnd' (n' + k))"
  shows "reconcile rnd n xs item c t = reconcile rnd' n' xs item c t \<and>
         dispatched (reorderLoop rnd n xs item c t) = dispatched (reorderLoop rnd' n' xs item c t) \<and>
         (\<forall>a \<in> set (dispatched (reorderLoop rnd n xs item c t)).
            \<exists>d. item = DFolder d \<and> a = DELETE (id_folder (folder d))) \<and>
         sidebarItems (onReorder mk parse rnd item c t st) =
           parse (mk (reconcile rnd (randomStrCalls st) (sidebarItems st) item c t)) \<and>
         accountData (onReorder mk parse rnd item c t st) =
           mk (reconcile rnd (randomStrCalls st) (sidebarItems st) item c t) \<and>
         openedFolderActions (onReorder mk parse rnd item c t st) =
           openedFolderActions st @
           dispatched (reorderLoop rnd (randomStrCalls st) (sidebarItems st) item c t)"
proof -
  have "newItems (reorderLoop rnd n xs item c t) = newItems (reorderLoop rnd' n' xs item c t) \<and>
        dispatched (reorderLoop rnd n xs item c t) = dispatched (reorderLoop rnd' n' xs item c t)"
    unfolding reorderLoop_def
    using assms by (intro loop_same_random) (simp_all add: reorderInit_def)
  moreover have "\<forall>a \<in> set (dispatched (reorderLoop rnd n xs item c t)).
            \<exists>d. item = DFolder d \<and> a = DELETE (id_folder (folder d))"
    unfolding reorderLoop_def
    by (rule loop_dispatched_all) (simp_all add: reorderInit_def)
  ultimately show ?thesis
    by (simp add: reconcile_def onReorder_def Let_def)
qed

text \<open>
  C dragged below D inside F1, with two different outcomes of \<open>randomStr\<close>: the runs agree.
\<close>

theorem reconcile_effects_witness:
  "reconcile rndNew 0 exItems dragC dragD ReorderBelow =
     reconcile rndOther 5 exItems dragC dragD ReorderBelow \<and>
   dispatched (reorderLoop rndNew 0 exItems dragC dragD ReorderBelow) =
     dispatched (reorderLoop rndOther 5 exItems dragC dragD ReorderBelow)"
proof -
  have pre: "ReorderBelow = MakeChild \<and> isBareSpace dragD \<longrightarrow>
      (\<forall>k. rndNew (0 + k) = rndOther (5 + k))"
    by simp
  note th = reconcile_effects [OF pre, of exItems dragC]
  have "reconcile rndNew 0 exItems dragC dragD ReorderBelow =
     reconcile rndOther 5 exItems dragC dragD ReorderBelow"
    using th by (rule conjunct1)
  moreover have "dispatched (reorderLoop rndNew 0 exItems dragC dragD ReorderBelow) =
     dispatched (reorderLoop rndOther 5 exItems dragC dragD ReorderBelow)"
    using th by (rule conjunct2 [THEN conjunct1])
  ultimately show ?thesis by simp
qed

text \<open>
  C6 as stated fails: the only space E of F2 made a child of the bare space A. Two runs
  differ in the id of the new folder, and the run dispatches a DELETE to the opened-folder
  state.
\<close>

theorem reconcile_effects_counterexample:
  "reconcile rndNew 0 exItems2 dragE (DSpace ''A'') MakeChild \<noteq>
     reconcile rndOther 0 exItems2 dragE (DSpace ''A'') MakeChild \<and>
   dispatched (reorderLoop rndNew 0 exItems2 dragE (DSpace ''A'') MakeChild) = [DELETE ''F2'']"
  by (simp add: ex_defs run_defs)

section \<open>Drop targets\<close>

text \<open>
  C9. For the tabs of a sidebar that satisfies the invariants, \<open>canDrop\<close> of a drop target
  returns false exactly when the drag item is the target's own item, which is the case
  exactly when the two tabs are the same tab. So every drop target the monitor is given
  carries an item different from the drag item, and a drop of a tab on itself leaves the
  monitor without a drop target: it clears the dragging item and the reorder callback
  does not run.
\<close>

theorem canDrop_rejects_self:
  assumes "sidebarInvariant xs" and "tabs = tabDraggables getRoom xs"
    and "j < length tabs" and "k < length tabs"
    and "\<forall>h \<in> set hits. hit_tab h < length tabs"
  shows "(\<not> useDropTarget_canDrop (tabRef tabs k) (tabRef tabs j) \<longleftrightarrow> tabs ! j = tabs ! k) \<and>
         (\<not> useDropTargetInstruction_canDrop (tabRef tabs k) (tabRef tabs j) \<longleftrightarrow>
            tabs ! j = tabs ! k) \<and>
         (tabs ! j = tabs ! k \<longleftrightarrow> j = k) \<and>
         (\<forall>t \<in> set (monitorDropTargets tabs j hits). target_item t \<noteq> tabs ! j) \<and>
         ((\<forall>h \<in> set hits. hit_tab h = j) \<longrightarrow>
            tabDrop mk parse rnd tabs j hits st = st\<lparr>draggingItem := None\<rparr>)"
proof -
  have dist: "distinct tabs"
    using assms(1,2) by (simp add: tabs_distinct)
  have ref: "tabRef tabs j = tabRef tabs i \<longleftrightarrow> tabs ! j = tabs ! i" if "i < length tabs" for i
    using dist assms(3) that by (rule tabRef_eq_iff)
  have a: "\<not> useDropTarget_canDrop (tabRef tabs k) (tabRef tabs j) \<longleftrightarrow> tabs ! j = tabs ! k"
    using ref [OF assms(4)] by (simp add: useDropTarget_canDrop_def strictNotEqual_iff)
  have b: "\<not> useDropTargetInstruction_canDrop (tabRef tabs k) (tabRef tabs j) \<longleftrightarrow>
      tabs ! j = tabs ! k"
    using ref [OF assms(4)] by (simp add: useDropTargetInstruction_canDrop_def strictNotEqual_iff)
  have c: "tabs ! j = tabs ! k \<longleftrightarrow> j = k"
    using dist assms(3,4) by (simp add: nth_eq_iff_index_eq)
  have d: "\<forall>t \<in> set (monitorDropTargets tabs j hits). target_item t \<noteq> tabs ! j"
  proof
    fix t
    assume "t \<in> set (monitorDropTargets tabs j hits)"
    then obtain h where h: "h \<in> set hits" "t = getData tabs h"
      "useDropTarget_canDrop (tabRef tabs (hit_tab h)) (tabRef tabs j)"
      by (auto simp: monitorDropTargets_def)
    have "hit_tab h < length tabs"
      using assms(5) h(1) by simp
    then have "tabs ! j \<noteq> tabs ! hit_tab h"
      using ref [of "hit_tab h"] h(3) by (simp add: useDropTarget_canDrop_def strictNotEqual_iff)
    then show "target_item t \<noteq> tabs ! j"
      using h(2) by (auto simp: getData_def)
  qed
  have e: "tabDrop mk parse rnd tabs j hits st = st\<lparr>draggingItem := None\<rparr>"
    if "\<forall>h \<in> set hits. hit_tab h = j"
  proof -
    have "filter (\<lambda>h. useDropTarget_canDrop (tabRef tabs (hit_tab h)) (tabRef tabs j)) hits = []"
      using that by (auto simp: filter_empty_conv useDropTarget_canDrop_def strictNotEqual_iff)
    then show ?thesis
      by (simp add: tabDrop_def monitorDropTargets_def onDrop_def)
  qed
  show ?thesis
    using a b c d e by blast
qed

text \<open>
  The tabs of the example sidebar: C dropped on its own tab is rejected and changes
  nothing but the dragging item; C dropped on the tab of D is accepted.
\<close>

theorem canDrop_rejects_self_witness:
  "\<not> useDropTarget_canDrop (tabRef (tabDraggables hasRoom exItems) 2)
       (tabRef (tabDraggables hasRoom exItems) 2) \<and>
   useDropTarget_canDrop (tabRef (tabDraggables hasRoom exItems) 3)
       (tabRef (tabDraggables hasRoom exItems) 2) \<and>
   tabDrop id id rndNew (tabDraggables hasRoom exItems) 2
       [\<lparr>hit_tab = 2, hit_instruction = Some ReorderAbove\<rparr>] exClient =
     exClient\<lparr>draggingItem := None\<rparr>"
proof -
  let ?tabs = "tabDraggables hasRoom exItems"
  let ?hits = "[\<lparr>hit_tab = 2, hit_instruction = Some ReorderAbove\<rparr>]"
  have tabs: "?tabs = [DSpace ''A'', DSpace ''B'', dragC, dragD]"
    by (simp add: tab_defs ex_defs)
  have inv: "sidebarInvariant exItems"
    by (simp add: wf_defs ex_defs)
  have len: "(2::nat) < length ?tabs" "(3::nat) < length ?tabs"
    by (simp_all add: tabs)
  have hits: "\<forall>h \<in> set ?hits. hit_tab h < length ?tabs"
    by (simp add: tabs)
  have self: "\<forall>h \<in> set ?hits. hit_tab h = 2"
    by simp
  have ne: "?tabs ! 2 \<noteq> ?tabs ! 3"
    unfolding tabs by (simp add: dragC_def dragD_def)
  note same = canDrop_rejects_self [OF inv refl len(1) len(1) hits, of id id rndNew exClient]
  note other = canDrop_rejects_self [OF inv refl len(1) len(2) hits, of id id rndNew exClient]
  have "\<not> useDropTarget_canDrop (tabRef ?tabs 2) (tabRef ?tabs 2)"
    using same by blast
  moreover have "useDropTarget_canDrop (tabRef ?tabs 3) (tabRef ?tabs 2)"
    using other ne by blast
  moreover have "tabDrop id id rndNew ?tabs 2 ?hits exClient = exClient\<lparr>draggingItem := None\<rparr>"
    using same self by blast
  ultimately show ?thesis by blast
qed

section \<open>The drop monitor\<close>

text \<open>
  C10. When a drop completes with no drop target, or when the first drop target carries
  no instruction type, the monitor only clears the dragging item: the reorder callback is
  not run, so the sidebar items, the account data, the opened-folder state and
  \<open>randomStr\<close> are left as they were.
\<close>

theorem drop_without_instruction:
  assumes "dropTargets = [] \<or> target_instructionType (hd dropTargets) = None"
  shows "onDrop mk parse rnd source_item dropTargets st = st\<lparr>draggingItem := None\<rparr> \<and>
         sidebarItems (onDrop mk parse rnd source_item dropTargets st) = sidebarItems st \<and>
         accountData (onDrop mk parse rnd source_item dropTargets st) = accountData st \<and>
         openedFolderActions (onDrop mk parse rnd source_item dropTargets st) =
           openedFolderActions st \<and>
         randomStrCalls (onDrop mk parse rnd source_item dropTargets st) = randomStrCalls st"
  using assms by (cases dropTargets) (auto simp: onDrop_def)

text \<open>
  A drop on nothing, and a drop whose first target has no instruction type, in a client
  whose account data is the item list itself.
\<close>

theorem drop_without_instruction_witness:
  "onDrop id id rndNew dragC []
     \<lparr>sidebarItems = exItems, accountData = exItems, openedFolderActions = [],
      draggingItem = Some dragC, randomStrCalls = 0\<rparr> =
     \<lparr>sidebarItems = exItems, accountData = exItems, openedFolderActions = [],
      draggingItem = None, randomStrCalls = 0\<rparr> \<and>
   onDrop id id rndNew dragC
     [\<lparr>target_item = DSpace ''A'', target_instructionType = None\<rparr>,
      \<lparr>target_item = DSpace ''B'', target_instructionType = Some ReorderAbove\<rparr>]
     \<lparr>sidebarItems = exItems, accountData = exItems, openedFolderActions = [],
      draggingItem = Some dragC, randomStrCalls = 0\<rparr> =
     \<lparr>sidebarItems = exItems, accountData = exItems, openedFolderActions = [],
      draggingItem = None, randomStrCalls = 0\<rparr>"
proof -
  let ?st = "\<lparr>sidebarItems = exItems, accountData = exItems, openedFolderActions = [],
      draggingItem = Some dragC, randomStrCalls = 0\<rparr>"
  let ?ts = "[\<lparr>target_item = DSpace ''A'', target_instructionType = None\<rparr>,
      \<lparr>target_item = DSpace ''B'', target_instructionType = Some ReorderAbove\<rparr>]"
  have a: "([] :: drop_target_data list) = [] \<or> target_instructionType (hd []) = None"
    by simp
  have b: "?ts = [] \<or> target_instructionType (hd ?ts) = None"
    by simp
  show ?thesis
    using drop_without_instruction [OF a, of id id rndNew dragC ?st]
      drop_without_instruction [OF b, of id id rndNew dragC ?st]
    by simp
qed

text \<open>With an instruction type on the first target the callback runs.\<close>

lemma drop_with_instruction:
  "sidebarItems (onDrop id id rndNew dragC
     [\<lparr>target_item = DSpace ''A'', target_instructionType = Some ReorderAbove\<rparr>]
     \<lparr>sidebarItems = exItems, accountData = exItems, openedFolderActions = [],
      draggingItem = Some dragC, randomStrCalls = 0\<rparr>) =
   [Space ''C'', Space ''A'', Space ''B'', Folder (exF1\<lparr>content := [''D'']\<rparr>)]"
  by (simp add: onDrop_def onReorder_def ex_defs run_defs)

end
